theory Spec2Isabelle
  imports Main "HOL-Library.Word" "HOL-Library.Signed_Division"
begin

unbundle bit_operations_syntax

section \<open>The lock-free ring buffer (event system of the sketch)\<close>

text \<open>
  The sketch is written for an AVR Arduino. A \<^verbatim>\<open>byte\<close> is an 8-bit word. The read and
  write counts of a ring buffer are \<^verbatim>\<open>unsigned int\<close>: words of some width \<open>w\<close>, 16 on the
  AVR; the definitions are polymorphic in the width, since \<^verbatim>\<open>int\<close> and \<^verbatim>\<open>unsigned int\<close>
  always have the same one. The \<^verbatim>\<open>int capacity\<close> is carried as the word of its bit
  pattern, read as a signed number with \<open>sint\<close>: comparing it with an unsigned value or
  masking with it converts it to unsigned, which keeps the bits.

  The storage \<^verbatim>\<open>byte* buff\<close> is the memory behind the pointer, a function from the slot
  offset to the byte stored there.
\<close>

type_synonym byte = "8 word"

record 'c ring =
  buff :: "nat \<Rightarrow> byte"
  reads :: "'c"
  writes :: "'c"

definition UINT_MAX :: "'a::len word" where
  "UINT_MAX = - 1"

text \<open>
  The first lines of \<^verbatim>\<open>buff_write\<close>:
  \<^verbatim>\<open>int diff = *writes - *reads; if (diff < 0) items = UINT_MAX - diff; else items = diff;\<close>
  The subtraction is unsigned and wraps, \<^verbatim>\<open>diff\<close> is its value read as a signed number, and
  \<^verbatim>\<open>UINT_MAX - diff\<close> is computed in unsigned arithmetic again.
\<close>

definition items_in_buffer :: "'a::len word \<Rightarrow> 'a word \<Rightarrow> 'a word" where
  "items_in_buffer rd wr =
     (let diff = wr - rd
      in if sint diff < 0 then UINT_MAX - diff else diff)"

definition buff_write :: "byte \<Rightarrow> 'a::len word \<Rightarrow> 'a word ring \<Rightarrow> bool \<times> 'a word ring" where
  "buff_write item capacity s =
     (let items = items_in_buffer (reads s) (writes s)
      in if items = capacity then (False, s)
         else let tail = writes s AND (capacity - 1)
              in (True, s\<lparr>buff := (buff s)(unat tail := item), writes := writes s + 1\<rparr>))"

text \<open>
  \<^verbatim>\<open>buff_read\<close> returns its success flag, the contents of \<^verbatim>\<open>*item\<close> after the call and the
  buffer.
\<close>

definition buff_read :: "byte \<Rightarrow> 'a::len word \<Rightarrow> 'a word ring \<Rightarrow> bool \<times> byte \<times> 'a word ring" where
  "buff_read item capacity s =
     (if writes s = reads s then (False, item, s)
      else let head = reads s AND (capacity - 1)
           in (True, buff s (unat head), s\<lparr>reads := reads s + 1\<rparr>))"

text \<open>
  A sequence of calls on one buffer: the producer's \<^verbatim>\<open>buff_write\<close> calls and the consumer's
  \<^verbatim>\<open>buff_read\<close> calls in any order, each call running to its end. The consumer's
  \<^verbatim>\<open>*item\<close> is part of the state that is threaded through.
\<close>

datatype ring_op = Write byte | Read

fun ring_step :: "'a::len word \<Rightarrow> ring_op \<Rightarrow> byte \<times> 'a word ring \<Rightarrow> byte \<times> 'a word ring" where
  "ring_step capacity (Write b) (item, s) = (item, snd (buff_write b capacity s))"
| "ring_step capacity Read (item, s) = snd (buff_read item capacity s)"

fun run_ops :: "'a::len word \<Rightarrow> ring_op list \<Rightarrow> byte \<times> 'a word ring \<Rightarrow> byte \<times> 'a word ring" where
  "run_ops capacity [] st = st"
| "run_ops capacity (op # ops) st = run_ops capacity ops (ring_step capacity op st)"

text \<open>The number of unread items: writes minus reads, modulo the counter width.\<close>

definition unread :: "'a::len word ring \<Rightarrow> nat" where
  "unread s = unat (writes s - reads s)"

text \<open>
  The buffers of the sketch: \<^verbatim>\<open>SPI_BUFFER_SIZE\<close> is \<^verbatim>\<open>1 << SPI_BUFFER_K\<close>, with 16-bit counts.
\<close>

definition SPI_BUFFER_K :: nat where
  "SPI_BUFFER_K = 5"

definition SPI_BUFFER_SIZE :: "16 word" where
  "SPI_BUFFER_SIZE = push_bit SPI_BUFFER_K 1"

definition spi_in_read :: "byte \<Rightarrow> 16 word ring \<Rightarrow> bool \<times> byte \<times> 16 word ring" where
  "spi_in_read item s = buff_read item SPI_BUFFER_SIZE s"

definition spi_in_write :: "byte \<Rightarrow> 16 word ring \<Rightarrow> bool \<times> 16 word ring" where
  "spi_in_write item s = buff_write item SPI_BUFFER_SIZE s"

section \<open>The node: logs, counts, indicator pins and the two buses\<close>

text \<open>
  The globals of the sketch are the fields of one record. The \<^verbatim>\<open>int\<close> globals (log heads
  and tails, the counts of unsynchronized and unreported bytes) are integers, and
  \<^verbatim>\<open>%\<close> is C's remainder, which truncates towards zero: \<open>smod\<close>. The integers are
  unbounded, which is exact as long as no intermediate value leaves the range of an
  \<^verbatim>\<open>int\<close>: with \<^verbatim>\<open>LOG_SIZE\<close> at 128 the values of the sketch stay far from
  \<^verbatim>\<open>INT_MAX\<close>, and the general facts about the index arithmetic are stated for sizes
  where they do. The two logs are arrays of
  \<^verbatim>\<open>LOG_SIZE\<close> slots, modelled as the memory behind the array, a function from the
  index to the byte there.

  What the sketch does to the outside is recorded in the state: \<open>pins\<close> is the sequence of
  \<^verbatim>\<open>digitalWrite\<close> calls made so far (the fault signals), \<open>wire_rx\<close> holds the bytes
  the I2C library has received and not yet handed out, \<open>wire_tx\<close> the bytes written to
  it, and \<open>serial\<close> what was printed on the UART.
\<close>

datatype id_enum = alpha | beta

text \<open>
  Modelled from the spec: the sketch defines pin numbers for \<^verbatim>\<open>DEADLOCKED_LED\<close>,
  \<^verbatim>\<open>ALPHA_LED\<close> and \<^verbatim>\<open>SLOWSYNC_LED\<close> only; \<^verbatim>\<open>SLOWDUMP_LED\<close>, \<^verbatim>\<open>UNSYNCHRONIZED_LED\<close> and
  \<^verbatim>\<open>SYNCHRONIZATION_LED\<close> are used without a definition. The spec lists slow-sync,
  slow-dump, unsynchronized and deadlocked as separate fault signals, so the pins are
  told apart by their names.
\<close>

datatype led =
  DEADLOCKED_LED | ALPHA_LED | SLOWSYNC_LED | SLOWDUMP_LED | UNSYNCHRONIZED_LED | SYNCHRONIZATION_LED

datatype level = LOW | HIGH

datatype serial_item = PrintHex byte | PrintStr string

record node =
  our_id :: id_enum
  our_log :: "int \<Rightarrow> byte"
  their_log :: "int \<Rightarrow> byte"
  our_log_head :: int
  our_log_tail :: int
  their_log_head :: int
  their_log_tail :: int
  bytes_unsynched :: int
  bytes_unreported :: int
  pins :: "(led \<times> level) list"
  wire_rx :: "byte list"
  wire_tx :: "byte list"
  serial :: "serial_item list"

definition LOG_SIZE :: int where
  "LOG_SIZE = 128"

definition digitalWrite :: "led \<Rightarrow> level \<Rightarrow> node \<Rightarrow> node" where
  "digitalWrite pin v s = s\<lparr>pins := pins s @ [(pin, v)]\<rparr>"

text \<open>
  The I2C library: \<^verbatim>\<open>Wire.available()\<close> is the number of received bytes not yet read,
  \<^verbatim>\<open>Wire.read()\<close> hands out the oldest one (and \<^verbatim>\<open>-1\<close>, the byte 255, when there is
  none), \<^verbatim>\<open>Wire.write\<close> queues a byte for the peer. \<^verbatim>\<open>Wire.requestFrom\<close> runs the
  request on the bus: when it returns, the receive buffer holds the bytes the transport
  delivered, which are an argument of the model.
\<close>

definition Wire_available :: "node \<Rightarrow> int" where
  "Wire_available s = int (length (wire_rx s))"

definition Wire_read :: "node \<Rightarrow> byte \<times> node" where
  "Wire_read s = (case wire_rx s of [] \<Rightarrow> (255, s) | b # bs \<Rightarrow> (b, s\<lparr>wire_rx := bs\<rparr>))"

definition Wire_write :: "byte \<Rightarrow> node \<Rightarrow> node" where
  "Wire_write b s = s\<lparr>wire_tx := wire_tx s @ [b]\<rparr>"

definition Wire_requestFrom :: "byte list \<Rightarrow> node \<Rightarrow> node" where
  "Wire_requestFrom delivered s = s\<lparr>wire_rx := delivered\<rparr>"

definition Serial_print :: "serial_item \<Rightarrow> node \<Rightarrow> node" where
  "Serial_print x s = s\<lparr>serial := serial s @ [x]\<rparr>"

subsection \<open>Index arithmetic\<close>

text \<open>
  The largest \<^verbatim>\<open>int\<close> of the AVR target, 16 bits wide. The largest intermediate value of
  the two functions below is under three times the log size.
\<close>

definition INT_MAX :: int where
  "INT_MAX = 32767"

definition unsynched_head :: "int \<Rightarrow> int \<Rightarrow> int \<Rightarrow> int" where
  "unsynched_head unsynched log_tail log_size =
     ((log_tail - unsynched - 1) + 2 * log_size) smod log_size"

definition unreported_head :: "int \<Rightarrow> int \<Rightarrow> int \<Rightarrow> int \<Rightarrow> int" where
  "unreported_head unreported unsynched log_tail log_size =
     (let uhead = unsynched_head unsynched log_tail log_size
      in ((uhead - unreported) + log_size) smod log_size)"

subsection \<open>The SPI interrupt handler\<close>

text \<open>\<^verbatim>\<open>SPDR\<close>, the byte the SPI hardware received, is the argument.\<close>

definition ISR :: "byte \<Rightarrow> node \<Rightarrow> node" where
  "ISR SPDR s =
     (if our_log_head s = (our_log_tail s + 1) smod LOG_SIZE
      then digitalWrite SLOWSYNC_LED HIGH s
      else let s1 = s\<lparr>our_log := (our_log s)(our_log_tail s := SPDR),
                       our_log_tail := our_log_tail s + 1\<rparr>;
               s2 = s1\<lparr>our_log_tail := our_log_tail s1 smod LOG_SIZE\<rparr>
           in s2\<lparr>bytes_unsynched := bytes_unsynched s2 + 1\<rparr>)"

text \<open>
  The handler of the other iteration of the sketch, in \<^verbatim>\<open>spi_sniff.ino\<close>. It keeps one
  position \<^verbatim>\<open>our_log_pos\<close> (used without a declaration there, taken as an \<^verbatim>\<open>int\<close>) and a
  \<^verbatim>\<open>byte\<close> count \<^verbatim>\<open>bytes_unsynced\<close>, which wraps at 256 and is compared as an \<^verbatim>\<open>int\<close>:
  \<^verbatim>\<open>if (our_log_pos == LOG_SIZE) { our_log_pos = 0; digitalWrite(SLOWSYNC_LED, HIGH); }
  our_log[our_log_pos++] = SPDR; bytes_unsynced++;
  if (bytes_unsynced > LOG_SIZE) { bytes_unsynced = LOG_SIZE; }\<close>
\<close>

record sniff =
  sniff_our_log :: "int \<Rightarrow> byte"
  our_log_pos :: int
  bytes_unsynced :: byte
  sniff_pins :: "(led \<times> level) list"

definition ISR_spi_sniff :: "byte \<Rightarrow> sniff \<Rightarrow> sniff" where
  "ISR_spi_sniff SPDR s =
     (let s1 = (if our_log_pos s = LOG_SIZE
                then s\<lparr>our_log_pos := 0, sniff_pins := sniff_pins s @ [(SLOWSYNC_LED, HIGH)]\<rparr>
                else s);
          s2 = s1\<lparr>sniff_our_log := (sniff_our_log s1)(our_log_pos s1 := SPDR),
                   our_log_pos := our_log_pos s1 + 1\<rparr>;
          s3 = s2\<lparr>bytes_unsynced := bytes_unsynced s2 + 1\<rparr>
      in if uint (bytes_unsynced s3) > LOG_SIZE then s3\<lparr>bytes_unsynced := word_of_int LOG_SIZE\<rparr>
         else s3)"

subsection \<open>Synchronization\<close>

text \<open>
  The body of the receive loop, the same text in \<^verbatim>\<open>alpha_synchronize\<close> and in
  \<^verbatim>\<open>beta_synchronize_rx\<close>: the next received byte goes into \<^verbatim>\<open>their_log\<close> when
  there is room, and is read and dropped, with the slow-dump signal, when there is none.
\<close>

definition their_log_receive :: "node \<Rightarrow> node" where
  "their_log_receive s =
     (if their_log_head s \<noteq> (their_log_tail s + 1) smod LOG_SIZE
      then (let (b, s1) = Wire_read s;
                s2 = s1\<lparr>their_log := (their_log s1)(their_log_tail s1 := b),
                        their_log_tail := their_log_tail s1 + 1\<rparr>
            in s2\<lparr>their_log_tail := their_log_tail s2 smod LOG_SIZE\<rparr>)
      else digitalWrite SLOWDUMP_LED HIGH (snd (Wire_read s)))"

text \<open>
  \<^verbatim>\<open>while (Wire.available() > 0) { ...; bytes_synched++; }\<close> of \<^verbatim>\<open>alpha_synchronize\<close>,
  and the loop of \<^verbatim>\<open>beta_synchronize_rx\<close>, which does not count.
\<close>

function alpha_receive :: "int \<Rightarrow> node \<Rightarrow> int \<times> node" where
  "alpha_receive bytes_synched s =
     (if Wire_available s > 0
      then alpha_receive (bytes_synched + 1) (their_log_receive s)
      else (bytes_synched, s))"
  by pat_completeness auto
termination
  by (relation "measure (\<lambda>(n, s). length (wire_rx s))")
    (auto simp: Wire_available_def their_log_receive_def Wire_read_def digitalWrite_def
      split: list.splits)

function beta_receive :: "node \<Rightarrow> node" where
  "beta_receive s =
     (if Wire_available s > 0 then beta_receive (their_log_receive s) else s)"
  by pat_completeness auto
termination
  by (relation "measure (\<lambda>s. length (wire_rx s))")
    (auto simp: Wire_available_def their_log_receive_def Wire_read_def digitalWrite_def
      split: list.splits)

text \<open>
  \<^verbatim>\<open>while (Wire.available() < bytes_unsynched) {}\<close>: the loop has an empty body, so it
  either falls through at once or never ends. Not returning is the value \<open>None\<close>.
\<close>

partial_function (option) await_bytes :: "node \<Rightarrow> node option" where
  "await_bytes s = (if Wire_available s < bytes_unsynched s then await_bytes s else Some s)"

text \<open>
  \<^verbatim>\<open>for (int i = 0; i < bytes_unsynched; i++) Wire.write(our_log[(uhead + i) % LOG_SIZE]);\<close>
\<close>

function send_unsynched :: "int \<Rightarrow> int \<Rightarrow> node \<Rightarrow> node" where
  "send_unsynched uhead i s =
     (if i < bytes_unsynched s
      then send_unsynched uhead (i + 1) (Wire_write (our_log s ((uhead + i) smod LOG_SIZE)) s)
      else s)"
  by pat_completeness auto
termination
  by (relation "measure (\<lambda>(uhead, i, s). nat (bytes_unsynched s - i))")
    (auto simp: Wire_write_def)

text \<open>
  \<^verbatim>\<open>alpha_synchronize\<close> returns the number of bytes synchronized and the new state, or
  never returns. The argument \<open>delivered\<close> is what the transport delivers for the request.
  \<^verbatim>\<open>Wire.beginTransmission\<close> and \<^verbatim>\<open>Wire.endTransmission\<close> frame the bytes written and
  leave no trace of their own in the state.
\<close>

definition alpha_synchronize :: "byte list \<Rightarrow> node \<Rightarrow> (int \<times> node) option" where
  "alpha_synchronize delivered s =
     (if our_id s \<noteq> alpha then Some (0, s)
      else if bytes_unsynched s = 0 then Some (0, s)
      else
        (let s1 = Wire_requestFrom delivered s;
             s2 = digitalWrite DEADLOCKED_LED HIGH s1
         in case await_bytes s2 of
              None \<Rightarrow> None
            | Some s3 \<Rightarrow>
                (let (bytes_synched, s4) = alpha_receive 0 s3;
                     s5 = digitalWrite DEADLOCKED_LED LOW s4;
                     uhead = unsynched_head (bytes_unsynched s5) (our_log_tail s5) LOG_SIZE;
                     s6 = send_unsynched uhead 0 s5;
                     s7 = (if bytes_unsynched s6 \<noteq> bytes_synched
                           then digitalWrite UNSYNCHRONIZED_LED HIGH s6 else s6);
                     s8 = s7\<lparr>bytes_unsynched := bytes_unsynched s7 - bytes_synched\<rparr>;
                     s9 = s8\<lparr>bytes_unreported := bytes_unreported s8 + bytes_synched\<rparr>
                 in Some (bytes_synched, s9))))"

text \<open>
  \<^verbatim>\<open>beta_synchronize_tx\<close>, the request callback of the responder, runs the same
  transmit loop (its loop header is written with a comma where the semicolon belongs;
  the loop of \<^verbatim>\<open>alpha_synchronize\<close> is what it stands for).
\<close>

definition beta_synchronize_tx :: "node \<Rightarrow> node" where
  "beta_synchronize_tx s =
     (let uhead = unsynched_head (bytes_unsynched s) (our_log_tail s) LOG_SIZE
      in send_unsynched uhead 0 s)"

text \<open>
  \<^verbatim>\<open>beta_synchronize_rx\<close> is the receive callback of the responder: the library calls
  it with the number of bytes it received, which are in the receive buffer.
\<close>

definition beta_synchronize_rx :: "int \<Rightarrow> node \<Rightarrow> node" where
  "beta_synchronize_rx bytes_synched s =
     (let s1 = beta_receive s;
          s2 = (if bytes_unsynched s1 \<noteq> bytes_synched
                then digitalWrite UNSYNCHRONIZED_LED HIGH s1 else s1);
          s3 = s2\<lparr>bytes_unsynched := bytes_unsynched s2 - bytes_synched\<rparr>
      in s3\<lparr>bytes_unreported := bytes_unreported s3 + bytes_synched\<rparr>)"

definition on_receive :: "byte list \<Rightarrow> node \<Rightarrow> node" where
  "on_receive delivered s =
     beta_synchronize_rx (int (length delivered)) (s\<lparr>wire_rx := delivered\<rparr>)"

subsection \<open>The main loop and its reporter\<close>

text \<open>
  The \<^verbatim>\<open>for\<close> loop of the reporter: it prints the pair of bytes at each of the
  \<^verbatim>\<open>bytes_unreported\<close> positions from \<^verbatim>\<open>start\<close> and counts them in the local
  \<^verbatim>\<open>bytes_reported\<close>.
\<close>

definition print_pair :: "int \<Rightarrow> node \<Rightarrow> node" where
  "print_pair k s =
     (if our_id s = alpha
      then (let s1 = Serial_print (PrintHex (our_log s (k smod LOG_SIZE))) s;
                s2 = Serial_print (PrintStr ''/'') s1
            in Serial_print (PrintHex (their_log s2 (k smod LOG_SIZE))) s2)
      else (let s1 = Serial_print (PrintHex (their_log s (k smod LOG_SIZE))) s;
                s2 = Serial_print (PrintStr ''/'') s1
            in Serial_print (PrintHex (our_log s2 (k smod LOG_SIZE))) s2))"

function report_from :: "int \<Rightarrow> int \<Rightarrow> int \<Rightarrow> node \<Rightarrow> int \<times> node" where
  "report_from start i bytes_reported s =
     (if i < bytes_unreported s
      then report_from start (i + 1) (bytes_reported + 1) (print_pair (start + i) s)
      else (bytes_reported, s))"
  by pat_completeness auto
termination
  by (relation "measure (\<lambda>(start, i, n, s). nat (bytes_unreported s - i))")
    (auto simp: print_pair_def Serial_print_def Let_def)

text \<open>The second half of \<^verbatim>\<open>loop\<close>: \<^verbatim>\<open>if (bytes_unreported > 0) { ... }\<close>.\<close>

definition report :: "node \<Rightarrow> node" where
  "report s =
     (if bytes_unreported s > 0
      then (let start = unreported_head (bytes_unreported s) (bytes_unsynched s)
                          (our_log_tail s) LOG_SIZE
            in snd (report_from start 0 0 s))
      else s)"

definition loop :: "byte list \<Rightarrow> node \<Rightarrow> node option" where
  "loop delivered s =
     (if our_id s = alpha
      then (case alpha_synchronize delivered (digitalWrite SYNCHRONIZATION_LED HIGH s) of
              None \<Rightarrow> None
            | Some (synched, s1) \<Rightarrow> Some (report (digitalWrite SYNCHRONIZATION_LED LOW s1)))
      else Some (report s))"

text \<open>
  The state after \<^verbatim>\<open>setup\<close>: the globals are zero, \<^verbatim>\<open>our_id\<close> is what the ID_SELECT pin
  said, and the alpha node has lit its LED.
\<close>

definition boot :: "id_enum \<Rightarrow> node" where
  "boot i =
     \<lparr>our_id = i, our_log = (\<lambda>_. 0), their_log = (\<lambda>_. 0),
      our_log_head = 0, our_log_tail = 0, their_log_head = 0, their_log_tail = 0,
      bytes_unsynched = 0, bytes_unreported = 0,
      pins = (if i = alpha then [(ALPHA_LED, HIGH)] else []),
      wire_rx = [], wire_tx = [], serial = []\<rparr>"

section \<open>Notions used to state the properties\<close>

text \<open>
  A signal on a pin is raised between two states when the \<^verbatim>\<open>digitalWrite\<close> calls made
  from the first to the second include one that drives the pin high.
\<close>

definition new_signals :: "node \<Rightarrow> node \<Rightarrow> (led \<times> level) list" where
  "new_signals s s' = drop (length (pins s)) (pins s')"

definition raised :: "led \<Rightarrow> node \<Rightarrow> node \<Rightarrow> bool" where
  "raised pin s s' = ((pin, HIGH) \<in> set (new_signals s s'))"

text \<open>What was printed on the UART between two states.\<close>

definition printed :: "node \<Rightarrow> node \<Rightarrow> serial_item list" where
  "printed s s' = drop (length (serial s)) (serial s')"

text \<open>
  The three items the reporter prints for position \<open>k\<close>, and the whole span one pass
  of the reporter prints: both are read off the loop body, and are proved below to be
  what \<open>print_pair\<close> and \<open>report\<close> append.
\<close>

definition pair_items :: "node \<Rightarrow> int \<Rightarrow> serial_item list" where
  "pair_items s k =
     (if our_id s = alpha
      then [PrintHex (our_log s (k smod LOG_SIZE)), PrintStr ''/'',
            PrintHex (their_log s (k smod LOG_SIZE))]
      else [PrintHex (their_log s (k smod LOG_SIZE)), PrintStr ''/'',
            PrintHex (our_log s (k smod LOG_SIZE))])"

definition reported_span :: "node \<Rightarrow> serial_item list" where
  "reported_span s =
     concat (map (\<lambda>j. pair_items s
                   (unreported_head (bytes_unreported s) (bytes_unsynched s) (our_log_tail s)
                      LOG_SIZE + j))
               [0..bytes_unreported s - 1])"

text \<open>What the receive loops leave alone.\<close>

definition rx_frame :: "node \<Rightarrow> node \<Rightarrow> bool" where
  "rx_frame s s' \<longleftrightarrow>
     our_id s' = our_id s \<and> our_log s' = our_log s \<and> our_log_head s' = our_log_head s \<and>
     our_log_tail s' = our_log_tail s \<and> their_log_head s' = their_log_head s \<and>
     bytes_unsynched s' = bytes_unsynched s \<and> bytes_unreported s' = bytes_unreported s \<and>
     wire_tx s' = wire_tx s \<and> serial s' = serial s \<and>
     (\<exists>k. pins s' = pins s @ replicate k (SLOWDUMP_LED, HIGH))"

text \<open>
  The number of bytes a log holds between its head and its tail, and a run of the
  interrupt handler over a sequence of incoming bytes.
\<close>

definition log_count :: "int \<Rightarrow> int \<Rightarrow> int" where
  "log_count head tail = (tail - head) mod LOG_SIZE"

fun capture :: "byte list \<Rightarrow> node \<Rightarrow> node" where
  "capture [] s = s"
| "capture (b # bs) s = capture bs (ISR b s)"

text \<open>
  The states a node reaches from \<^verbatim>\<open>setup\<close>: an interrupt delivers a byte, the main loop
  runs once, or (on the responder) the library calls one of the two callbacks, each
  running to its end before the next begins. The sync accounting is correct when every
  exchange delivers as many bytes as the node has unsynchronized.
\<close>

inductive reachable :: "node \<Rightarrow> bool" where
  booted: "reachable (boot i)"
| interrupted: "reachable s \<Longrightarrow> reachable (ISR b s)"
| looped: "reachable s \<Longrightarrow> int (length delivered) = bytes_unsynched s \<Longrightarrow>
           loop delivered s = Some s' \<Longrightarrow> reachable s'"
| requested: "reachable s \<Longrightarrow> our_id s = beta \<Longrightarrow> reachable (beta_synchronize_tx s)"
| received: "reachable s \<Longrightarrow> our_id s = beta \<Longrightarrow> int (length delivered) = bytes_unsynched s \<Longrightarrow>
             reachable (on_receive delivered s)"

code_pred reachable .

section \<open>Signed and unsigned readings of a word\<close>

lemma sint_nonneg_iff:
  "0 \<le> sint (w :: 'a::len word) \<longleftrightarrow> uint w < 2 ^ (LENGTH('a) - Suc 0)"
proof
  assume nn: "0 \<le> sint w"
  show "uint w < 2 ^ (LENGTH('a) - Suc 0)"
  proof (rule ccontr)
    assume "\<not> uint w < 2 ^ (LENGTH('a) - Suc 0)"
    then have ge: "2 ^ (LENGTH('a) - Suc 0) \<le> uint w" by simp
    have "sint w \<le> uint w - 2 ^ Suc (LENGTH('a) - Suc 0)"
      unfolding sint_uint by (rule signed_take_bit_int_less_eq [OF ge])
    then have "sint w \<le> uint w - 2 ^ LENGTH('a)" by simp
    then have "sint w < 0" using uint_lt2p [of w] by linarith
    with nn show False by simp
  qed
next
  assume lt: "uint w < 2 ^ (LENGTH('a) - Suc 0)"
  have "- (2 ^ (LENGTH('a) - Suc 0)) \<le> (0::int)" by simp
  also have "0 \<le> uint w" by simp
  finally have "signed_take_bit (LENGTH('a) - Suc 0) (uint w) = uint w"
    using lt by (rule signed_take_bit_int_eq_self)
  then show "0 \<le> sint w" by (simp only: sint_uint uint_ge_0)
qed

lemma sint_nonneg_unat:
  "0 \<le> sint (w :: 'a::len word) \<longleftrightarrow> unat w < 2 ^ (LENGTH('a) - 1)"
proof -
  have "(unat w < 2 ^ (LENGTH('a) - Suc 0)) = (int (unat w) < int (2 ^ (LENGTH('a) - Suc 0)))"
    by (simp only: of_nat_less_iff)
  also have "\<dots> = (uint w < 2 ^ (LENGTH('a) - Suc 0))"
    by simp
  finally show ?thesis by (simp add: sint_nonneg_iff)
qed

lemma sint_nonneg_le:
  "0 \<le> sint (c :: 'a::len word) \<Longrightarrow> unat u \<le> unat c \<Longrightarrow> 0 \<le> sint (u :: 'a word)"
  by (simp add: sint_nonneg_unat)

lemma unat_succ_diff:
  fixes wr rd c :: "'a::len word"
  assumes "unat (wr - rd) < unat c"
  shows "unat (wr + 1 - rd) = Suc (unat (wr - rd))"
proof -
  have "unat (wr - rd) + 1 < 2 ^ LENGTH('a)"
    using assms unsigned_less [of c, where ?'a = nat] by linarith
  then have "unat (wr - rd) + unat (1 :: 'a word) < 2 ^ LENGTH('a)"
    by simp
  then have "unat ((wr - rd) + 1) = unat (wr - rd) + unat (1 :: 'a word)"
    by (simp only: unat_add_lem)
  then have "unat ((wr - rd) + 1) = Suc (unat (wr - rd))" by simp
  moreover have eq: "wr + 1 - rd = (wr - rd) + 1" by simp
  ultimately show ?thesis by (simp only: eq)
qed

lemma unat_pred_diff:
  "wr \<noteq> rd \<Longrightarrow> unat (wr - (rd + 1)) = unat (wr - rd) - 1" for wr :: "'a::len word"
  by (metis diff_diff_eq eq_iff_diff_eq_0 unat_minus_one)

lemma mask_mod:
  "unat (w AND (2 ^ k - 1)) = unat w mod unat (2 ^ k :: 'a word)" for w :: "'a::len word"
  by (metis mask_eq_exp_minus_1 take_bit_eq_mask take_bit_eq_mod unat_mod)

section \<open>The ring buffer\<close>

subsection \<open>The item count\<close>

lemma items_in_buffer_cases:
  "items_in_buffer rd wr =
     (if unat (wr - rd) < 2 ^ (LENGTH('a) - 1) then wr - rd else UINT_MAX - (wr - rd))"
  for rd wr :: "'a::len word"
  using sint_nonneg_unat [of "wr - rd"]
  by (auto simp: items_in_buffer_def Let_def)

lemma items_in_buffer_nonneg:
  "0 \<le> sint (wr - rd) \<Longrightarrow> items_in_buffer rd wr = wr - rd"
  by (simp add: items_in_buffer_def Let_def)

lemma items_in_buffer_unread:
  fixes capacity :: "'a::len word" and s :: "'a word ring"
  assumes "0 \<le> sint capacity" and "unread s \<le> unat capacity"
  shows "items_in_buffer (reads s) (writes s) = writes s - reads s"
  using assms sint_nonneg_le [of capacity "writes s - reads s"]
  by (simp add: items_in_buffer_nonneg unread_def)

subsection \<open>Writing and reading\<close>

lemma buff_write_reads [simp]: "reads (snd (buff_write item capacity s)) = reads s"
  by (simp add: buff_write_def Let_def)

lemma buff_read_writes [simp]: "writes (snd (snd (buff_read item capacity s))) = writes s"
  by (simp add: buff_read_def Let_def)

lemma buff_read_buff [simp]: "buff (snd (snd (buff_read item capacity s))) = buff s"
  by (simp add: buff_read_def Let_def)

text \<open>
  Claim C3. For a capacity that is a power of two (and a positive \<^verbatim>\<open>int\<close>): when the
  computed item count equals the capacity, \<^verbatim>\<open>buff_write\<close> returns false and changes
  nothing; otherwise it stores the item at slot \<^verbatim>\<open>*writes\<close> modulo the capacity,
  increments \<^verbatim>\<open>*writes\<close> and returns true.
\<close>

theorem buff_write_full_or_store:
  assumes "capacity = 2 ^ k" and "k < LENGTH('a) - 1"
  shows "buff_write item (capacity :: 'a::len word) s =
           (if items_in_buffer (reads s) (writes s) = capacity then (False, s)
            else (True, s\<lparr>buff := (buff s)(unat (writes s) mod unat capacity := item),
                           writes := writes s + 1\<rparr>))"
  using assms by (simp add: buff_write_def Let_def mask_mod)

theorem buff_write_full_or_store_witness:
  "SPI_BUFFER_SIZE = 2 ^ 5 \<and> 5 < LENGTH(16) - 1 \<and>
   spi_in_write 7 \<lparr>buff = (\<lambda>_. 0), reads = 65530, writes = 65535\<rparr> =
     (True, \<lparr>buff = (\<lambda>_. 0)(31 := 7), reads = 65530, writes = 0\<rparr>) \<and>
   spi_in_write 7 \<lparr>buff = (\<lambda>_. 0), reads = 65530, writes = 26\<rparr> =
     (False, \<lparr>buff = (\<lambda>_. 0), reads = 65530, writes = 26\<rparr>)"
  using buff_write_full_or_store [of SPI_BUFFER_SIZE 5 7
          "\<lparr>buff = (\<lambda>_. 0), reads = 65530, writes = 65535\<rparr>"]
    buff_write_full_or_store [of SPI_BUFFER_SIZE 5 7
          "\<lparr>buff = (\<lambda>_. 0), reads = 65530, writes = 26\<rparr>"]
  by (simp add: spi_in_write_def SPI_BUFFER_SIZE_def SPI_BUFFER_K_def items_in_buffer_def
      UINT_MAX_def Let_def)

text \<open>
  Claim C4. For a capacity that is a power of two: when \<^verbatim>\<open>*writes == *reads\<close>,
  \<^verbatim>\<open>buff_read\<close> returns false and changes neither \<^verbatim>\<open>*item\<close> nor the buffer nor
  \<^verbatim>\<open>*reads\<close>; otherwise it copies the byte at slot \<^verbatim>\<open>*reads\<close> modulo the capacity into
  \<^verbatim>\<open>*item\<close>, increments \<^verbatim>\<open>*reads\<close> and returns true.
\<close>

theorem buff_read_empty_or_load:
  assumes "capacity = 2 ^ k" and "k < LENGTH('a) - 1"
  shows "buff_read item (capacity :: 'a::len word) s =
           (if writes s = reads s then (False, item, s)
            else (True, buff s (unat (reads s) mod unat capacity), s\<lparr>reads := reads s + 1\<rparr>))"
  using assms by (simp add: buff_read_def Let_def mask_mod)

theorem buff_read_empty_or_load_witness:
  "SPI_BUFFER_SIZE = 2 ^ 5 \<and> 5 < LENGTH(16) - 1 \<and>
   spi_in_read 9 \<lparr>buff = (\<lambda>_. 0)(3 := 7), reads = 35, writes = 36\<rparr> =
     (True, 7, \<lparr>buff = (\<lambda>_. 0)(3 := 7), reads = 36, writes = 36\<rparr>) \<and>
   spi_in_read 9 \<lparr>buff = (\<lambda>_. 0)(3 := 7), reads = 36, writes = 36\<rparr> =
     (False, 9, \<lparr>buff = (\<lambda>_. 0)(3 := 7), reads = 36, writes = 36\<rparr>)"
  using buff_read_empty_or_load [of SPI_BUFFER_SIZE 5 9
          "\<lparr>buff = (\<lambda>_. 0)(3 := 7), reads = 35, writes = 36\<rparr>"]
    buff_read_empty_or_load [of SPI_BUFFER_SIZE 5 9
          "\<lparr>buff = (\<lambda>_. 0)(3 := 7), reads = 36, writes = 36\<rparr>"]
  by (simp add: spi_in_read_def SPI_BUFFER_SIZE_def SPI_BUFFER_K_def)

subsection \<open>The capacity invariant\<close>

lemma buff_write_fails_iff:
  assumes "0 \<le> sint capacity" and "unread s \<le> unat capacity"
  shows "\<not> fst (buff_write item capacity s) \<longleftrightarrow> unread s = unat capacity"
  using items_in_buffer_unread [OF assms]
  by (auto simp: buff_write_def Let_def unread_def dest: word_unat_eq_iff [THEN iffD2])

lemma buff_write_unread:
  assumes "0 \<le> sint capacity" and "unread s \<le> unat capacity"
  shows "unread (snd (buff_write item capacity s)) \<le> unat capacity"
proof (cases "writes s - reads s = capacity")
  case True
  then show ?thesis
    using items_in_buffer_unread [OF assms] assms(2) by (simp add: buff_write_def Let_def)
next
  case False
  then have "unat (writes s - reads s) \<noteq> unat capacity"
    by (simp add: word_unat_eq_iff)
  with assms(2) have lt: "unat (writes s - reads s) < unat capacity"
    by (simp add: unread_def)
  from False show ?thesis
    using items_in_buffer_unread [OF assms] unat_succ_diff [OF lt] lt
    by (simp add: buff_write_def Let_def unread_def)
qed

lemma buff_read_unread:
  "unread (snd (snd (buff_read item capacity s))) \<le> unread s"
  by (simp add: buff_read_def Let_def unread_def unat_pred_diff)

lemma ring_step_unread:
  assumes "0 \<le> sint capacity" and "unread (snd st) \<le> unat capacity"
  shows "unread (snd (ring_step capacity op st)) \<le> unat capacity"
proof (cases st)
  case (Pair item s)
  show ?thesis
  proof (cases op)
    case (Write b)
    with Pair assms show ?thesis by (simp add: buff_write_unread)
  next
    case Read
    with Pair assms buff_read_unread [of item capacity s] show ?thesis by simp
  qed
qed

lemma run_ops_unread:
  assumes "0 \<le> sint capacity"
  shows "unread (snd st) \<le> unat capacity \<Longrightarrow>
         unread (snd (run_ops capacity ops st)) \<le> unat capacity"
proof (induction ops arbitrary: st)
  case Nil
  then show ?case by simp
next
  case (Cons op ops)
  then show ?case by (simp add: ring_step_unread [OF assms])
qed

text \<open>
  Claim C1. Start from an empty buffer (equal counts, whatever their value) with a
  capacity that is a non-negative \<^verbatim>\<open>int\<close>. After any sequence of \<^verbatim>\<open>buff_write\<close> and
  \<^verbatim>\<open>buff_read\<close> calls, the number of unread items, writes minus reads modulo the counter
  width, is at most the capacity, and a further \<^verbatim>\<open>buff_write\<close> fails exactly when the
  buffer holds \<open>capacity\<close> unread items.
\<close>

theorem ring_capacity_invariant:
  assumes "0 \<le> sint capacity" and "reads s0 = writes s0"
  shows "unread (snd (run_ops capacity ops (item0, s0))) \<le> unat capacity \<and>
         (\<not> fst (buff_write item capacity (snd (run_ops capacity ops (item0, s0))))
            \<longleftrightarrow> unread (snd (run_ops capacity ops (item0, s0))) = unat capacity)"
proof -
  have "unread (snd (item0, s0)) \<le> unat capacity"
    using assms(2) by (simp add: unread_def)
  then have inv: "unread (snd (run_ops capacity ops (item0, s0))) \<le> unat capacity"
    by (rule run_ops_unread [OF assms(1)])
  with buff_write_fails_iff [OF assms(1) inv] show ?thesis by simp
qed

theorem ring_capacity_invariant_witness:
  "0 \<le> sint (2 :: 16 word) \<and>
   unread (snd (run_ops (2 :: 16 word) [Write 17, Write 34, Read, Write 51]
                 (0, \<lparr>buff = \<lambda>_. 0, reads = 65535, writes = 65535\<rparr>))) = 2 \<and>
   \<not> fst (buff_write 68 (2 :: 16 word)
            (snd (run_ops 2 [Write 17, Write 34, Read, Write 51]
                 (0, \<lparr>buff = \<lambda>_. 0, reads = 65535, writes = 65535\<rparr>))))"
  using ring_capacity_invariant [of "2 :: 16 word"
      "\<lparr>buff = \<lambda>_. 0, reads = 65535, writes = 65535\<rparr>"
      "[Write 17, Write 34, Read, Write 51]" 0 68]
  by (simp add: buff_write_def buff_read_def items_in_buffer_def UINT_MAX_def unread_def Let_def)



section \<open>Index arithmetic\<close>

lemma smod_nonneg: "0 \<le> a \<Longrightarrow> a smod b = a mod \<bar>b\<bar>" for a b :: int
  by (cases "a = 0") (simp_all add: smod_int_alt_def)

lemma smod_pos: "0 \<le> a \<Longrightarrow> 0 < b \<Longrightarrow> a smod b = a mod b" for a b :: int
  by (simp add: smod_nonneg)

lemma smod_LOG_SIZE: "0 \<le> a \<Longrightarrow> a smod LOG_SIZE = a mod 128"
  by (simp add: smod_pos LOG_SIZE_def)

lemma unsynched_head_mod:
  assumes "0 \<le> count" "count < capacity" "0 \<le> tail" "tail < capacity"
    and "3 * capacity \<le> INT_MAX"
  shows "unsynched_head count tail capacity = (tail - count - 1) mod capacity"
proof -
  have "0 \<le> (tail - count - 1) + 2 * capacity" using assms by linarith
  moreover have "0 < capacity" using assms by linarith
  ultimately have "unsynched_head count tail capacity =
      ((tail - count - 1) + 2 * capacity) mod capacity"
    by (simp only: unsynched_head_def smod_pos)
  then show ?thesis by simp
qed

lemma unsynched_head_range:
  assumes "0 \<le> count" "count < capacity" "0 \<le> tail" "tail < capacity"
    and "3 * capacity \<le> INT_MAX"
  shows "0 \<le> unsynched_head count tail capacity \<and> unsynched_head count tail capacity < capacity"
  using assms by (simp add: unsynched_head_mod)

text \<open>
  What the code computes: walking \<open>count\<close> steps forward from the head lands one slot
  before the tail.
\<close>

lemma unsynched_head_walk:
  assumes "0 \<le> count" "count < capacity" "0 \<le> tail" "tail < capacity"
    and "3 * capacity \<le> INT_MAX"
  shows "(unsynched_head count tail capacity + count) mod capacity = (tail - 1) mod capacity"
proof -
  have "((tail - count - 1) mod capacity + count) mod capacity =
      ((tail - count - 1) + count) mod capacity"
    by (simp add: mod_add_left_eq)
  then show ?thesis using assms by (simp add: unsynched_head_mod)
qed

lemma unreported_head_mod:
  assumes "0 \<le> unsynched" "unsynched < capacity" "0 \<le> unreported" "unreported \<le> capacity"
    "0 \<le> tail" "tail < capacity" and "3 * capacity \<le> INT_MAX"
  shows "unreported_head unreported unsynched tail capacity =
           (unsynched_head unsynched tail capacity - unreported) mod capacity"
proof -
  let ?u = "unsynched_head unsynched tail capacity"
  have r: "0 \<le> ?u \<and> ?u < capacity" using assms by (simp add: unsynched_head_range)
  then have "0 \<le> (?u - unreported) + capacity" using assms by linarith
  moreover have "0 < capacity" using assms by linarith
  ultimately have "unreported_head unreported unsynched tail capacity =
      ((?u - unreported) + capacity) mod capacity"
    by (simp only: unreported_head_def Let_def smod_pos)
  then show ?thesis by simp
qed

text \<open>
  \<^verbatim>\<open>unreported_head\<close> is \<^verbatim>\<open>unsynched_head\<close> minus the unreported count, normalized
  into \<open>[0, capacity)\<close>: walking \<open>unreported\<close> steps forward from it lands on the value
  of \<^verbatim>\<open>unsynched_head\<close>.
\<close>

lemma unreported_head_walk:
  assumes "0 \<le> unsynched" "unsynched < capacity" "0 \<le> unreported" "unreported \<le> capacity"
    "0 \<le> tail" "tail < capacity" and "3 * capacity \<le> INT_MAX"
  shows "unreported_head unreported unsynched tail capacity =
           (unsynched_head unsynched tail capacity - unreported) mod capacity \<and>
         0 \<le> unreported_head unreported unsynched tail capacity \<and>
         unreported_head unreported unsynched tail capacity < capacity \<and>
         (unreported_head unreported unsynched tail capacity + unreported) mod capacity =
           unsynched_head unsynched tail capacity"
proof -
  let ?u = "unsynched_head unsynched tail capacity"
  have r: "0 \<le> ?u \<and> ?u < capacity" using assms by (simp add: unsynched_head_range)
  have c: "0 < capacity" using assms by linarith
  have eq: "unreported_head unreported unsynched tail capacity = (?u - unreported) mod capacity"
    using assms by (rule unreported_head_mod)
  have "((?u - unreported) mod capacity + unreported) mod capacity =
      ((?u - unreported) + unreported) mod capacity"
    by (simp add: mod_add_left_eq)
  also have "\<dots> = ?u" using r by simp
  finally show ?thesis using eq c by simp
qed

section \<open>The interrupt handler\<close>

lemmas run_defs = boot_def ISR_def Let_def LOG_SIZE_def signed_modulo_int_def digitalWrite_def
  Wire_available_def Wire_read_def Wire_write_def Wire_requestFrom_def their_log_receive_def
  unsynched_head_def unreported_head_def

text \<open>
  The handler with a head and a tail: on a full log it raises the slow-sync signal once
  and changes nothing else; otherwise it stores the byte at the tail, advances the tail
  and increments the count of unsynchronized bytes.
\<close>

lemma ISR_full:
  "our_log_head s = (our_log_tail s + 1) smod LOG_SIZE \<Longrightarrow>
   ISR b s = s\<lparr>pins := pins s @ [(SLOWSYNC_LED, HIGH)]\<rparr>"
  by (simp add: ISR_def digitalWrite_def)

lemma ISR_room:
  "our_log_head s \<noteq> (our_log_tail s + 1) smod LOG_SIZE \<Longrightarrow>
   ISR b s = s\<lparr>our_log := (our_log s)(our_log_tail s := b),
               our_log_tail := (our_log_tail s + 1) smod LOG_SIZE,
               bytes_unsynched := bytes_unsynched s + 1\<rparr>"
  by (simp add: ISR_def Let_def)

lemma ISR_refuses_iff:
  "ISR b s = digitalWrite SLOWSYNC_LED HIGH s \<longleftrightarrow>
     our_log_head s = (our_log_tail s + 1) smod LOG_SIZE"
proof
  assume e: "ISR b s = digitalWrite SLOWSYNC_LED HIGH s"
  show "our_log_head s = (our_log_tail s + 1) smod LOG_SIZE"
  proof (rule ccontr)
    assume "our_log_head s \<noteq> (our_log_tail s + 1) smod LOG_SIZE"
    then have "bytes_unsynched (ISR b s) = bytes_unsynched s + 1" by (simp add: ISR_room)
    with e show False by (simp add: digitalWrite_def)
  qed
next
  assume "our_log_head s = (our_log_tail s + 1) smod LOG_SIZE"
  then show "ISR b s = digitalWrite SLOWSYNC_LED HIGH s" by (simp add: ISR_def)
qed

text \<open>The handler of \<^verbatim>\<open>spi_sniff.ino\<close> once all \<^verbatim>\<open>LOG_SIZE\<close> slots are written.\<close>

lemma ISR_spi_sniff_full:
  "our_log_pos s = LOG_SIZE \<Longrightarrow>
   sniff_our_log (ISR_spi_sniff b s) = (sniff_our_log s)(0 := b) \<and>
   our_log_pos (ISR_spi_sniff b s) = 1 \<and>
   sniff_pins (ISR_spi_sniff b s) = sniff_pins s @ [(SLOWSYNC_LED, HIGH)]"
  by (simp add: ISR_spi_sniff_def Let_def LOG_SIZE_def)

text \<open>
  Claim C7. When a bus byte arrives and the local log is full, the interrupt handler is
  to drop the byte and raise the slow-sync fault, with no other change: nothing stored,
  no slot overwritten, position and unsynchronized count unchanged. The handler with a
  head and a tail does so (\<open>ISR_full\<close>, \<open>ISR_room\<close>). The handler of \<^verbatim>\<open>spi_sniff.ino\<close> does
  not: with all \<^verbatim>\<open>LOG_SIZE\<close> slots written it raises the fault, wraps its position to 0,
  stores the new byte over the oldest one and counts it.
\<close>

theorem ISR_spi_sniff_overwrites_when_full:
  "ISR_spi_sniff 0x99
     \<lparr>sniff_our_log = (\<lambda>_. 0)(0 := 0x11), our_log_pos = LOG_SIZE, bytes_unsynced = 3,
      sniff_pins = []\<rparr> =
     \<lparr>sniff_our_log = (\<lambda>_. 0)(0 := 0x99), our_log_pos = 1, bytes_unsynced = 4,
      sniff_pins = [(SLOWSYNC_LED, HIGH)]\<rparr>"
  by (simp add: ISR_spi_sniff_def LOG_SIZE_def Let_def)

section \<open>Synchronization\<close>

text \<open>
  The loops below are unfolded by hand, once per iteration, in the proofs about them.
\<close>

declare alpha_receive.simps [simp del] beta_receive.simps [simp del]
  send_unsynched.simps [simp del] report_from.simps [simp del]

lemma await_bytes_Some:
  assumes "await_bytes s = Some s'"
  shows "\<not> Wire_available s < bytes_unsynched s \<and> s' = s"
  by (rule await_bytes.raw_induct
        [where P = "\<lambda>s s'. \<not> Wire_available s < bytes_unsynched s \<and> s' = s", OF _ assms])
    (auto split: if_splits)

lemma await_bytes_eq:
  "await_bytes s = (if Wire_available s < bytes_unsynched s then None else Some s)"
proof (cases "Wire_available s < bytes_unsynched s")
  case True
  then have "await_bytes s \<noteq> Some s'" for s'
    using await_bytes_Some [of s s'] by auto
  with True show ?thesis by (cases "await_bytes s") auto
next
  case False
  then show ?thesis by (subst await_bytes.simps) simp
qed

lemma their_log_receive_cons:
  "wire_rx s = b # bs \<Longrightarrow>
   their_log_receive s =
     (if their_log_head s \<noteq> (their_log_tail s + 1) smod LOG_SIZE
      then s\<lparr>their_log := (their_log s)(their_log_tail s := b),
             their_log_tail := (their_log_tail s + 1) smod LOG_SIZE, wire_rx := bs\<rparr>
      else s\<lparr>pins := pins s @ [(SLOWDUMP_LED, HIGH)], wire_rx := bs\<rparr>)"
  by (simp add: their_log_receive_def Wire_read_def digitalWrite_def Let_def)

lemma rx_frame_refl: "rx_frame s s"
  by (simp add: rx_frame_def)

lemma rx_frame_trans: "rx_frame s s' \<Longrightarrow> rx_frame s' s'' \<Longrightarrow> rx_frame s s''"
  by (auto simp: rx_frame_def replicate_add [symmetric])

lemma their_log_receive_frame:
  "wire_rx s = b # bs \<Longrightarrow> rx_frame s (their_log_receive s) \<and> wire_rx (their_log_receive s) = bs"
proof -
  assume a: "wire_rx s = b # bs"
  have "pins s @ [(SLOWDUMP_LED, HIGH)] = pins s @ replicate 1 (SLOWDUMP_LED, HIGH)" by simp
  moreover have "pins s = pins s @ replicate 0 (SLOWDUMP_LED, HIGH)" by simp
  ultimately show ?thesis
    unfolding their_log_receive_cons [OF a] rx_frame_def
    by (simp del: replicate.simps)
qed

lemma alpha_receive_frame:
  "wire_rx s = bs \<Longrightarrow>
   fst (alpha_receive n s) = n + int (length bs) \<and>
   rx_frame s (snd (alpha_receive n s)) \<and> wire_rx (snd (alpha_receive n s)) = []"
proof (induction bs arbitrary: n s)
  case Nil
  then show ?case
    by (subst (1 2 3) alpha_receive.simps) (simp add: Wire_available_def rx_frame_refl)
next
  case (Cons b bs)
  from their_log_receive_frame [OF Cons.prems]
  have f: "rx_frame s (their_log_receive s)" and w: "wire_rx (their_log_receive s) = bs"
    by simp_all
  have unfold: "alpha_receive n s = alpha_receive (n + 1) (their_log_receive s)"
    using Cons.prems by (subst alpha_receive.simps) (simp add: Wire_available_def)
  from Cons.IH [OF w, of "n + 1"] f show ?case
    unfolding unfold by (auto intro: rx_frame_trans)
qed

lemma beta_receive_frame:
  "wire_rx s = bs \<Longrightarrow> rx_frame s (beta_receive s) \<and> wire_rx (beta_receive s) = []"
proof (induction bs arbitrary: s)
  case Nil
  then show ?case
    by (subst (1 2) beta_receive.simps) (simp add: Wire_available_def rx_frame_refl)
next
  case (Cons b bs)
  from their_log_receive_frame [OF Cons.prems]
  have f: "rx_frame s (their_log_receive s)" and w: "wire_rx (their_log_receive s) = bs"
    by simp_all
  have unfold: "beta_receive s = beta_receive (their_log_receive s)"
    using Cons.prems by (subst beta_receive.simps) (simp add: Wire_available_def)
  from Cons.IH [OF w] f show ?case
    unfolding unfold by (auto intro: rx_frame_trans)
qed

lemma send_unsynched_eq:
  "send_unsynched uhead i s =
     s\<lparr>wire_tx := wire_tx s @ map (\<lambda>j. our_log s ((uhead + j) smod LOG_SIZE)) [i..bytes_unsynched s - 1]\<rparr>"
proof (induction uhead i s rule: send_unsynched.induct)
  case (1 uhead i s)
  show ?case
  proof (cases "i < bytes_unsynched s")
    case True
    then have u: "[i..bytes_unsynched s - 1] = i # [i + 1..bytes_unsynched s - 1]"
      by (simp add: upto_rec1)
    from True 1 show ?thesis
      by (subst send_unsynched.simps) (simp add: u Wire_write_def)
  next
    case False
    then show ?thesis by (subst send_unsynched.simps) simp
  qed
qed

lemma alpha_synchronize_returns:
  assumes "our_id s = alpha" and "bytes_unsynched s \<noteq> 0"
    and "bytes_unsynched s \<le> int (length delivered)"
  shows "\<exists>s' k. alpha_synchronize delivered s = Some (int (length delivered), s') \<and>
      bytes_unsynched s' = bytes_unsynched s - int (length delivered) \<and>
      bytes_unreported s' = bytes_unreported s + int (length delivered) \<and>
      our_id s' = our_id s \<and> our_log s' = our_log s \<and> our_log_head s' = our_log_head s \<and>
      our_log_tail s' = our_log_tail s \<and> their_log_head s' = their_log_head s \<and>
      serial s' = serial s \<and> wire_rx s' = [] \<and>
      wire_tx s' = wire_tx s @
        map (\<lambda>j. our_log s ((unsynched_head (bytes_unsynched s) (our_log_tail s) LOG_SIZE + j)
                               smod LOG_SIZE)) [0..bytes_unsynched s - 1] \<and>
      pins s' = pins s @ [(DEADLOCKED_LED, HIGH)] @ replicate k (SLOWDUMP_LED, HIGH) @
        [(DEADLOCKED_LED, LOW)] @
        (if bytes_unsynched s \<noteq> int (length delivered) then [(UNSYNCHRONIZED_LED, HIGH)] else [])"
proof -
  define s2 where "s2 = digitalWrite DEADLOCKED_LED HIGH (Wire_requestFrom delivered s)"
  have rx: "wire_rx s2 = delivered"
    by (simp add: s2_def digitalWrite_def Wire_requestFrom_def)
  have aw: "await_bytes s2 = Some s2"
    using assms(3) by (simp add: await_bytes_eq Wire_available_def s2_def digitalWrite_def Wire_requestFrom_def)
  obtain m s4 where r: "alpha_receive 0 s2 = (m, s4)" by (cases "alpha_receive 0 s2")
  from alpha_receive_frame [OF rx, of 0] r
  have m: "m = int (length delivered)" and fr: "rx_frame s2 s4" and e: "wire_rx s4 = []"
    by simp_all
  from fr obtain k where p: "pins s4 = pins s2 @ replicate k (SLOWDUMP_LED, HIGH)"
    by (auto simp: rx_frame_def)
  from fr have f2: "our_id s4 = our_id s" "our_log s4 = our_log s" "our_log_head s4 = our_log_head s"
    "our_log_tail s4 = our_log_tail s" "their_log_head s4 = their_log_head s"
    "bytes_unsynched s4 = bytes_unsynched s" "bytes_unreported s4 = bytes_unreported s"
    "wire_tx s4 = wire_tx s" "serial s4 = serial s"
    by (simp_all add: rx_frame_def s2_def digitalWrite_def Wire_requestFrom_def)
  have p2: "pins s2 = pins s @ [(DEADLOCKED_LED, HIGH)]"
    by (simp add: s2_def digitalWrite_def Wire_requestFrom_def)
  have "alpha_synchronize delivered s =
      (let s5 = digitalWrite DEADLOCKED_LED LOW s4;
           uhead = unsynched_head (bytes_unsynched s5) (our_log_tail s5) LOG_SIZE;
           s6 = send_unsynched uhead 0 s5;
           s7 = (if bytes_unsynched s6 \<noteq> m
                 then digitalWrite UNSYNCHRONIZED_LED HIGH s6 else s6);
           s8 = s7\<lparr>bytes_unsynched := bytes_unsynched s7 - m\<rparr>;
           s9 = s8\<lparr>bytes_unreported := bytes_unreported s8 + m\<rparr>
       in Some (m, s9))"
    using assms(1,2) aw r by (simp add: alpha_synchronize_def s2_def [symmetric] Let_def)
  then show ?thesis
    using f2 p p2 e m
    by (auto simp: Let_def send_unsynched_eq digitalWrite_def simp del: replicate.simps)
qed

lemma alpha_synchronize_never_returns:
  assumes "our_id s = alpha" and "bytes_unsynched s \<noteq> 0"
    and "int (length delivered) < bytes_unsynched s"
  shows "alpha_synchronize delivered s = None"
  using assms
  by (simp add: alpha_synchronize_def await_bytes_eq Wire_available_def digitalWrite_def
      Wire_requestFrom_def Let_def)

lemma beta_synchronize_rx_eq:
  "\<exists>k. beta_synchronize_rx n s =
     (beta_receive s)\<lparr>bytes_unsynched := bytes_unsynched s - n,
                       bytes_unreported := bytes_unreported s + n,
                       pins := pins s @ replicate k (SLOWDUMP_LED, HIGH) @
                         (if bytes_unsynched s \<noteq> n then [(UNSYNCHRONIZED_LED, HIGH)] else [])\<rparr>"
proof -
  from beta_receive_frame [OF refl, of s] have fr: "rx_frame s (beta_receive s)" by simp
  then obtain k where p: "pins (beta_receive s) = pins s @ replicate k (SLOWDUMP_LED, HIGH)"
    by (auto simp: rx_frame_def)
  from fr have f: "bytes_unsynched (beta_receive s) = bytes_unsynched s"
    "bytes_unreported (beta_receive s) = bytes_unreported s"
    by (simp_all add: rx_frame_def)
  show ?thesis
    by (rule exI [of _ k])
      (simp add: beta_synchronize_rx_def Let_def digitalWrite_def f p del: replicate.simps)
qed

lemma raised_iff:
  "pins s' = pins s @ evs \<Longrightarrow> raised pin s s' \<longleftrightarrow> (pin, HIGH) \<in> set evs"
  by (simp add: raised_def new_signals_def)

subsection \<open>Two small runs\<close>

lemma capture_two: "capture [0x11, 0x22] (boot i) =
  (boot i)\<lparr>our_log := (\<lambda>_. 0)(0 := 0x11, 1 := 0x22), our_log_tail := 2, bytes_unsynched := 2\<rparr>"
  by (simp add: run_defs)

lemma capture_three: "capture [0x11, 0x22, 0x33] (boot alpha) =
  (boot alpha)\<lparr>our_log := (\<lambda>_. 0)(0 := 0x11, 1 := 0x22, 2 := 0x33), our_log_tail := 3, bytes_unsynched := 3\<rparr>"
  by (simp add: run_defs)

text \<open>
  Claim C5. For \<open>0 \<le> count < capacity\<close> and \<open>0 \<le> tail < capacity\<close>, \<^verbatim>\<open>unsynched_head\<close> is
  to return a slot in \<open>[0, capacity)\<close> from which \<open>count\<close> steps forward land exactly on
  the tail, and likewise \<^verbatim>\<open>unreported_head\<close>. The slot is in range
  (\<open>unsynched_head_range\<close>), but the walk ends one slot before the tail
  (\<open>unsynched_head_walk\<close>): with three bytes captured into slots 0, 1 and 2 the tail is 3
  and the head returned is 127 where the oldest unsynchronized byte is in slot 0, so the
  initiator transmits the stale slot 127 and the first two bytes and never the third;
  \<^verbatim>\<open>unreported_head\<close>, which starts from it, is one slot early as well.
\<close>

theorem unsynched_head_one_before_region:
  "unsynched_head 3 3 LOG_SIZE = 127 \<and> (unsynched_head 3 3 LOG_SIZE + 3) mod LOG_SIZE = 2 \<and>
   unsynched_head 0 0 LOG_SIZE = 127 \<and>
   unreported_head 2 3 5 LOG_SIZE = 127 \<and>
   (\<exists>s'. alpha_synchronize [0xAA, 0xBB, 0xCC] (capture [0x11, 0x22, 0x33] (boot alpha)) = Some (3, s') \<and>
         wire_tx s' = [0, 0x11, 0x22])"
proof -
  let ?s = "capture [0x11, 0x22, 0x33] (boot alpha)"
  have "our_id ?s = alpha" "bytes_unsynched ?s \<noteq> 0"
    "bytes_unsynched ?s \<le> int (length [0xAA, 0xBB, 0xCC :: byte])"
    unfolding capture_three by (simp_all add: boot_def)
  from alpha_synchronize_returns [OF this]
  have "\<exists>s'. alpha_synchronize [0xAA, 0xBB, 0xCC] ?s = Some (3, s') \<and> wire_tx s' = [0, 0x11, 0x22]"
    unfolding capture_three
    by (auto simp: boot_def unsynched_head_def LOG_SIZE_def signed_modulo_int_def upto_rec1)
  then show ?thesis
    by (simp add: unsynched_head_def unreported_head_def LOG_SIZE_def signed_modulo_int_def)
qed

subsection \<open>The accounting of a round\<close>

text \<open>
  Claim C8, as amended. A round of \<^verbatim>\<open>alpha_synchronize\<close> in which the node requested
  \<open>U\<close> bytes and the transport delivered \<open>R\<close> completes when \<open>U \<le> R\<close> and never returns
  when \<open>R < U\<close>. When it completes, \<^verbatim>\<open>bytes_synched\<close> is \<open>R\<close>, whatever the room in
  \<^verbatim>\<open>their_log\<close>; \<open>R\<close> is subtracted from \<^verbatim>\<open>bytes_unsynched\<close> and added to
  \<^verbatim>\<open>bytes_unreported\<close>, and the unsynchronized fault is raised exactly when \<open>R\<close> differs
  from \<open>U\<close>. \<^verbatim>\<open>beta_synchronize_rx\<close>, called with the count \<open>R\<close> of the bytes in the
  receive buffer, does the same bookkeeping for every \<open>R\<close>.
\<close>

theorem sync_accounting_uses_received_count:
  "(our_id s = alpha \<and> bytes_unsynched s \<noteq> 0 \<and> bytes_unsynched s \<le> int (length delivered) \<longrightarrow>
      (\<exists>s'. alpha_synchronize delivered s = Some (int (length delivered), s') \<and>
            bytes_unsynched s' = bytes_unsynched s - int (length delivered) \<and>
            bytes_unreported s' = bytes_unreported s + int (length delivered) \<and>
            (raised UNSYNCHRONIZED_LED s s' \<longleftrightarrow> int (length delivered) \<noteq> bytes_unsynched s))) \<and>
   (our_id s = alpha \<and> bytes_unsynched s \<noteq> 0 \<and> int (length delivered) < bytes_unsynched s \<longrightarrow>
      alpha_synchronize delivered s = None) \<and>
   (wire_rx t = delivered \<longrightarrow>
      (let t' = beta_synchronize_rx (int (length delivered)) t
       in bytes_unsynched t' = bytes_unsynched t - int (length delivered) \<and>
          bytes_unreported t' = bytes_unreported t + int (length delivered) \<and>
          (raised UNSYNCHRONIZED_LED t t' \<longleftrightarrow> int (length delivered) \<noteq> bytes_unsynched t)))"
proof (intro conjI impI)
  assume a: "our_id s = alpha \<and> bytes_unsynched s \<noteq> 0 \<and> bytes_unsynched s \<le> int (length delivered)"
  then have "our_id s = alpha" "bytes_unsynched s \<noteq> 0" "bytes_unsynched s \<le> int (length delivered)"
    by simp_all
  from alpha_synchronize_returns [OF this]
  obtain s' k where r: "alpha_synchronize delivered s = Some (int (length delivered), s')"
    "bytes_unsynched s' = bytes_unsynched s - int (length delivered)"
    "bytes_unreported s' = bytes_unreported s + int (length delivered)"
    and p: "pins s' = pins s @ [(DEADLOCKED_LED, HIGH)] @ replicate k (SLOWDUMP_LED, HIGH) @
        [(DEADLOCKED_LED, LOW)] @
        (if bytes_unsynched s \<noteq> int (length delivered) then [(UNSYNCHRONIZED_LED, HIGH)] else [])"
    by blast
  have "raised UNSYNCHRONIZED_LED s s' \<longleftrightarrow> int (length delivered) \<noteq> bytes_unsynched s"
    unfolding raised_iff [OF p] by auto
  with r show "\<exists>s'. alpha_synchronize delivered s = Some (int (length delivered), s') \<and>
            bytes_unsynched s' = bytes_unsynched s - int (length delivered) \<and>
            bytes_unreported s' = bytes_unreported s + int (length delivered) \<and>
            (raised UNSYNCHRONIZED_LED s s' \<longleftrightarrow> int (length delivered) \<noteq> bytes_unsynched s)"
    by blast
next
  assume "our_id s = alpha \<and> bytes_unsynched s \<noteq> 0 \<and> int (length delivered) < bytes_unsynched s"
  then show "alpha_synchronize delivered s = None"
    by (simp add: alpha_synchronize_never_returns)
next
  assume "wire_rx t = delivered"
  let ?n = "int (length delivered)"
  obtain k where e: "beta_synchronize_rx ?n t =
     (beta_receive t)\<lparr>bytes_unsynched := bytes_unsynched t - ?n,
                       bytes_unreported := bytes_unreported t + ?n,
                       pins := pins t @ replicate k (SLOWDUMP_LED, HIGH) @
                         (if bytes_unsynched t \<noteq> ?n then [(UNSYNCHRONIZED_LED, HIGH)] else [])\<rparr>"
    using beta_synchronize_rx_eq [of ?n t] by blast
  have p: "pins (beta_synchronize_rx ?n t) = pins t @ replicate k (SLOWDUMP_LED, HIGH) @
                         (if bytes_unsynched t \<noteq> ?n then [(UNSYNCHRONIZED_LED, HIGH)] else [])"
    by (simp add: e)
  have "raised UNSYNCHRONIZED_LED t (beta_synchronize_rx ?n t) \<longleftrightarrow> ?n \<noteq> bytes_unsynched t"
    unfolding raised_iff [OF p] by auto
  moreover have "bytes_unsynched (beta_synchronize_rx ?n t) = bytes_unsynched t - ?n"
    "bytes_unreported (beta_synchronize_rx ?n t) = bytes_unreported t + ?n"
    by (simp_all add: e)
  ultimately show "let t' = beta_synchronize_rx ?n t
       in bytes_unsynched t' = bytes_unsynched t - ?n \<and>
          bytes_unreported t' = bytes_unreported t + ?n \<and>
          (raised UNSYNCHRONIZED_LED t t' \<longleftrightarrow> ?n \<noteq> bytes_unsynched t)"
    by (simp add: Let_def)
qed

theorem sync_accounting_uses_received_count_witness:
  "our_id (capture [0x11, 0x22] (boot alpha)) = alpha \<and>
   bytes_unsynched (capture [0x11, 0x22] (boot alpha)) = 2 \<and>
   (\<exists>s'. alpha_synchronize [0xAA, 0xBB, 0xCC] (capture [0x11, 0x22] (boot alpha)) = Some (3, s') \<and>
         bytes_unsynched s' = - 1 \<and> bytes_unreported s' = 3 \<and>
         raised UNSYNCHRONIZED_LED (capture [0x11, 0x22] (boot alpha)) s') \<and>
   alpha_synchronize [0xAA] (capture [0x11, 0x22] (boot alpha)) = None \<and>
   (let t = (capture [0x11, 0x22] (boot beta))\<lparr>wire_rx := [0xAA]\<rparr>; t' = beta_synchronize_rx 1 t
    in bytes_unsynched t' = 1 \<and> bytes_unreported t' = 1 \<and> raised UNSYNCHRONIZED_LED t t')"
  using sync_accounting_uses_received_count
      [of "capture [0x11, 0x22] (boot alpha)" "[0xAA, 0xBB, 0xCC]"
          "(capture [0x11, 0x22] (boot beta))\<lparr>wire_rx := [0xAA, 0xBB, 0xCC]\<rparr>"]
    sync_accounting_uses_received_count
      [of "capture [0x11, 0x22] (boot alpha)" "[0xAA]"
          "(capture [0x11, 0x22] (boot beta))\<lparr>wire_rx := [0xAA]\<rparr>"]
  unfolding capture_two by (simp add: boot_def Let_def)

text \<open>
  The claim as it was stated, for every round, fails on the initiator: with two bytes
  requested and one delivered, \<^verbatim>\<open>alpha_synchronize\<close> waits forever.
\<close>

theorem sync_deadlock_counterexample:
  "our_id (capture [0x11, 0x22] (boot alpha)) = alpha \<and>
   bytes_unsynched (capture [0x11, 0x22] (boot alpha)) = 2 \<and>
   alpha_synchronize [0xAA] (capture [0x11, 0x22] (boot alpha)) = None"
  unfolding capture_two
  by (simp add: alpha_synchronize_never_returns boot_def)

section \<open>The reporter\<close>

lemma print_pair_eq: "print_pair k s = s\<lparr>serial := serial s @ pair_items s k\<rparr>"
  by (simp add: print_pair_def pair_items_def Serial_print_def Let_def)

lemma pair_items_serial [simp]: "pair_items (s\<lparr>serial := x\<rparr>) k = pair_items s k"
  by (simp add: pair_items_def)

lemma report_from_eq:
  "report_from start i n s =
     (n + (if i < bytes_unreported s then bytes_unreported s - i else 0),
      s\<lparr>serial := serial s @
           concat (map (\<lambda>j. pair_items s (start + j)) [i..bytes_unreported s - 1])\<rparr>)"
proof (induction start i n s rule: report_from.induct)
  case (1 start i n s)
  show ?case
  proof (cases "i < bytes_unreported s")
    case True
    then have u: "[i..bytes_unreported s - 1] = i # [i + 1..bytes_unreported s - 1]"
      by (simp add: upto_rec1)
    from True 1 show ?thesis
      by (subst report_from.simps) (simp add: u print_pair_eq)
  next
    case False
    then show ?thesis by (subst report_from.simps) simp
  qed
qed

lemma report_eq: "report s = s\<lparr>serial := serial s @ reported_span s\<rparr>"
proof (cases "bytes_unreported s > 0")
  case True
  then show ?thesis by (simp add: report_def report_from_eq reported_span_def Let_def)
next
  case False
  then have "[0..bytes_unreported s - 1] = []" by simp
  with False show ?thesis by (simp add: report_def reported_span_def)
qed

lemma reported_span_serial [simp]: "reported_span (s\<lparr>serial := x\<rparr>) = reported_span s"
  by (simp add: reported_span_def)

lemma pair_items_pins [simp]: "pair_items (s\<lparr>pins := x\<rparr>) k = pair_items s k"
  by (simp add: pair_items_def)

lemma reported_span_pins [simp]: "reported_span (s\<lparr>pins := x\<rparr>) = reported_span s"
  by (simp add: reported_span_def)

lemma reported_span_length:
  "0 \<le> bytes_unreported s \<Longrightarrow> length (reported_span s) = 3 * nat (bytes_unreported s)"
proof -
  assume a: "0 \<le> bytes_unreported s"
  have "length (concat (map (\<lambda>j. pair_items s (h + j)) xs)) = 3 * length xs" for h xs
    by (induction xs) (simp_all add: pair_items_def)
  moreover have "length [0..bytes_unreported s - 1] = nat (bytes_unreported s)"
    using a by simp
  ultimately show ?thesis by (simp add: reported_span_def)
qed

lemma printed_append [simp]: "printed s (s\<lparr>serial := serial s @ out\<rparr>) = out"
  by (simp add: printed_def)

lemma loop_beta: "our_id s = beta \<Longrightarrow> loop delivered s = Some (report s)"
  by (simp add: loop_def)

lemma loop_alpha_idle:
  "our_id s = alpha \<Longrightarrow> bytes_unsynched s = 0 \<Longrightarrow>
   loop delivered s =
     Some (report (s\<lparr>pins := pins s @ [(SYNCHRONIZATION_LED, HIGH), (SYNCHRONIZATION_LED, LOW)]\<rparr>))"
  by (simp add: loop_def alpha_synchronize_def digitalWrite_def)

text \<open>
  Claim C9. In a state with \<^verbatim>\<open>bytes_unreported > 0\<close>, one pass of the reporter changes
  nothing but the serial output: \<^verbatim>\<open>bytes_unreported\<close>, \<^verbatim>\<open>bytes_unsynched\<close>,
  \<^verbatim>\<open>our_log_tail\<close> and both logs are as before, and the next pass prints the same span
  again. The same holds for a whole \<^verbatim>\<open>loop\<close> on a node that has nothing to
  synchronize.
\<close>

theorem report_is_a_peek:
  assumes "0 < bytes_unreported s"
  shows "(let s' = report s in
           bytes_unreported s' = bytes_unreported s \<and> bytes_unsynched s' = bytes_unsynched s \<and>
           our_log_tail s' = our_log_tail s \<and> our_log s' = our_log s \<and>
           their_log s' = their_log s \<and> s' = s\<lparr>serial := serial s'\<rparr> \<and>
           serial s' = serial s @ printed s s' \<and> length (printed s s') = 3 * nat (bytes_unreported s) \<and>
           printed s' (report s') = printed s s') \<and>
         (our_id s = beta \<or> bytes_unsynched s = 0 \<longrightarrow>
           (\<exists>s'. loop delivered s = Some s' \<and>
              bytes_unreported s' = bytes_unreported s \<and> bytes_unsynched s' = bytes_unsynched s \<and>
              our_log_tail s' = our_log_tail s \<and> our_log s' = our_log s \<and>
              their_log s' = their_log s \<and> printed s s' = printed s (report s) \<and>
              (\<exists>s''. loop delivered' s' = Some s'' \<and> printed s' s'' = printed s s')))"
proof -
  have len: "length (reported_span s) = 3 * nat (bytes_unreported s)"
    using assms by (simp add: reported_span_length)
  have first: "let s' = report s in
           bytes_unreported s' = bytes_unreported s \<and> bytes_unsynched s' = bytes_unsynched s \<and>
           our_log_tail s' = our_log_tail s \<and> our_log s' = our_log s \<and>
           their_log s' = their_log s \<and> s' = s\<lparr>serial := serial s'\<rparr> \<and>
           serial s' = serial s @ printed s s' \<and> length (printed s s') = 3 * nat (bytes_unreported s) \<and>
           printed s' (report s') = printed s s'"
    using len by (simp add: Let_def report_eq)
  have second: "\<exists>s'. loop delivered s = Some s' \<and>
              bytes_unreported s' = bytes_unreported s \<and> bytes_unsynched s' = bytes_unsynched s \<and>
              our_log_tail s' = our_log_tail s \<and> our_log s' = our_log s \<and>
              their_log s' = their_log s \<and> printed s s' = printed s (report s) \<and>
              (\<exists>s''. loop delivered' s' = Some s'' \<and> printed s' s'' = printed s s')"
    if "our_id s = beta \<or> bytes_unsynched s = 0"
  proof (cases "our_id s")
    case beta
    then show ?thesis by (simp add: loop_beta report_eq printed_def)
  next
    case alpha
    with that have z: "bytes_unsynched s = 0" by auto
    show ?thesis
      using alpha z
      by (simp add: loop_alpha_idle report_eq printed_def)
  qed
  from first second show ?thesis by blast
qed

lemma responder_after_round:
  "on_receive [0xAA, 0xBB] (capture [0x11, 0x22] (boot beta)) =
     \<lparr>our_id = beta, our_log = (\<lambda>_. 0)(0 := 0x11, 1 := 0x22),
      their_log = (\<lambda>_. 0)(0 := 0xAA, 1 := 0xBB),
      our_log_head = 0, our_log_tail = 2, their_log_head = 0, their_log_tail = 2,
      bytes_unsynched = 0, bytes_unreported = 2, pins = [], wire_rx = [], wire_tx = [],
      serial = []\<rparr>"
  unfolding capture_two
  by (simp add: on_receive_def beta_synchronize_rx_def beta_receive.simps run_defs)

theorem report_is_a_peek_witness:
  "0 < bytes_unreported (on_receive [0xAA, 0xBB] (capture [0x11, 0x22] (boot beta))) \<and>
   (let s = on_receive [0xAA, 0xBB] (capture [0x11, 0x22] (boot beta)); s' = report s
    in bytes_unreported s' = 2 \<and> bytes_unsynched s' = 0 \<and> our_log_tail s' = 2 \<and>
       our_log s' = our_log s \<and> their_log s' = their_log s \<and>
       length (printed s s') = 6 \<and> printed s' (report s') = printed s s' \<and>
       loop [] s = Some s')"
  using report_is_a_peek [of "on_receive [0xAA, 0xBB] (capture [0x11, 0x22] (boot beta))" "[]" "[]"]
  unfolding responder_after_round by (simp add: Let_def loop_def)

subsection \<open>Where the reporter starts\<close>

text \<open>
  A responder captures two bytes, receives the initiator's two in a round, and captures
  three more: bytes 0 and 1 of its log are unreported, bytes 2 to 4 unsynchronized.
\<close>

lemma responder_backlog:
  "capture [0x33, 0x44, 0x55] (on_receive [0xAA, 0xBB] (capture [0x11, 0x22] (boot beta))) =
     \<lparr>our_id = beta,
      our_log = (\<lambda>_. 0)(0 := 0x11, 1 := 0x22, 2 := 0x33, 3 := 0x44, 4 := 0x55),
      their_log = (\<lambda>_. 0)(0 := 0xAA, 1 := 0xBB),
      our_log_head = 0, our_log_tail = 5, their_log_head = 0, their_log_tail = 2,
      bytes_unsynched = 3, bytes_unreported = 2, pins = [], wire_rx = [], wire_tx = [],
      serial = []\<rparr>"
  unfolding responder_after_round
  by (simp add: ISR_def Let_def LOG_SIZE_def signed_modulo_int_def)

lemma responder_backlog_reachable:
  "reachable (capture [0x33, 0x44, 0x55] (on_receive [0xAA, 0xBB] (capture [0x11, 0x22] (boot beta))))"
proof -
  let ?s = "capture [0x11, 0x22] (boot beta)"
  have "reachable ?s"
    by (simp add: reachable.booted reachable.interrupted)
  moreover have "our_id ?s = beta" "int (length [0xAA, 0xBB :: byte]) = bytes_unsynched ?s"
    unfolding capture_two by (simp_all add: boot_def)
  ultimately have "reachable (on_receive [0xAA, 0xBB] ?s)"
    by (rule reachable.received)
  then show ?thesis
    by (simp add: reachable.interrupted)
qed

text \<open>
  Claim C6. \<^verbatim>\<open>unreported_head\<close> is to be \<^verbatim>\<open>unsynched_head\<close> minus the unreported count,
  normalized into \<open>[0, capacity)\<close>, so that the unreported region immediately precedes
  the unsynchronized region in the ring. The subtraction and the normalization are as
  claimed (\<open>unreported_head_walk\<close>), but \<^verbatim>\<open>unsynched_head\<close> is one slot before the
  unsynchronized region, and the region that starts at \<^verbatim>\<open>unreported_head\<close> is shifted
  with it: in the state above the unreported bytes are in slots 0 and 1 and the
  unsynchronized ones begin in slot 2, where the code returns 1 for \<^verbatim>\<open>unsynched_head\<close>
  and 127 for \<^verbatim>\<open>unreported_head\<close>, and the reporter prints slots 127 and 0 and not
  slot 1.
\<close>

theorem unreported_head_one_before_region:
  "(let s = capture [0x33, 0x44, 0x55] (on_receive [0xAA, 0xBB] (capture [0x11, 0x22] (boot beta)))
    in bytes_unreported s = 2 \<and> bytes_unsynched s = 3 \<and> our_log_tail s = 5 \<and>
       map (our_log s) [0, 1, 2, 3, 4] = [0x11, 0x22, 0x33, 0x44, 0x55] \<and>
       map (their_log s) [0, 1] = [0xAA, 0xBB] \<and>
       unsynched_head (bytes_unsynched s) (our_log_tail s) LOG_SIZE = 1 \<and>
       unreported_head (bytes_unreported s) (bytes_unsynched s) (our_log_tail s) LOG_SIZE = 127 \<and>
       printed s (report s) =
         [PrintHex 0, PrintStr ''/'', PrintHex 0, PrintHex 0xAA, PrintStr ''/'', PrintHex 0x11])"
  unfolding responder_backlog
  by (simp add: report_eq reported_span_def pair_items_def unreported_head_def unsynched_head_def
      LOG_SIZE_def signed_modulo_int_def Let_def upto_rec1 printed_def)

section \<open>The capacity of the logs\<close>

lemma their_log_receive_full:
  "their_log_head s = (their_log_tail s + 1) smod LOG_SIZE \<Longrightarrow>
   their_log_receive s = digitalWrite SLOWDUMP_LED HIGH (snd (Wire_read s))"
  by (simp add: their_log_receive_def)

lemma their_log_receive_full_frame:
  "their_log_head s = (their_log_tail s + 1) smod LOG_SIZE \<Longrightarrow>
   their_log (their_log_receive s) = their_log s \<and>
   their_log_tail (their_log_receive s) = their_log_tail s"
  by (simp add: their_log_receive_def digitalWrite_def Wire_read_def split: list.splits)

lemma succ_mod_128:
  "0 \<le> t \<Longrightarrow> t < 128 \<Longrightarrow> (t + 1) mod 128 = (if t = 127 then 0 else t + 1)" for t :: int
  by simp

lemma diff_mod_128:
  fixes t h :: int
  assumes "0 \<le> h" "h < 128" "0 \<le> t" "t < 128"
  shows "(t - h) mod 128 = (if h \<le> t then t - h else t - h + 128)"
proof (cases "h \<le> t")
  case True
  then show ?thesis using assms by simp
next
  case False
  have "(t - h) mod 128 = (t - h + 128) mod 128" by simp
  also have "\<dots> = t - h + 128" using False assms by (intro mod_pos_pos_trivial) linarith+
  finally show ?thesis using False by simp
qed

lemma log_count_full_iff:
  assumes "0 \<le> h" "h < LOG_SIZE" "0 \<le> t" "t < LOG_SIZE"
  shows "h = (t + 1) smod LOG_SIZE \<longleftrightarrow> log_count h t = LOG_SIZE - 1"
proof -
  have r: "0 \<le> h" "h < 128" "0 \<le> t" "t < 128" using assms by (simp_all add: LOG_SIZE_def)
  have a: "(t + 1) smod LOG_SIZE = (if t = 127 then 0 else t + 1)"
    using r by (simp add: smod_LOG_SIZE)
  have c: "log_count h t = (if h \<le> t then t - h else t - h + 128)"
    using diff_mod_128 [OF r] by (simp add: log_count_def LOG_SIZE_def)
  have d: "LOG_SIZE - 1 = 127" by (simp add: LOG_SIZE_def)
  show ?thesis unfolding a c d using r by (auto split: if_splits)
qed

lemma log_count_le: "log_count h t \<le> LOG_SIZE - 1"
  by (simp add: log_count_def LOG_SIZE_def) 

lemma log_count_step:
  assumes "0 \<le> h" "h < LOG_SIZE" "0 \<le> t" "t < LOG_SIZE" "h \<noteq> (t + 1) smod LOG_SIZE"
  shows "log_count h ((t + 1) smod LOG_SIZE) = log_count h t + 1"
proof -
  have r: "0 \<le> h" "h < 128" "0 \<le> t" "t < 128" using assms by (simp_all add: LOG_SIZE_def)
  have a: "(t + 1) smod LOG_SIZE = (if t = 127 then 0 else t + 1)"
    using r by (simp add: smod_LOG_SIZE)
  have c: "log_count h t = (if h \<le> t then t - h else t - h + 128)"
    using diff_mod_128 [OF r] by (simp add: log_count_def LOG_SIZE_def)
  show ?thesis
  proof (cases "t = 127")
    case True
    with assms(5) a have h0: "h \<noteq> 0" by simp
    have "log_count h 0 = 0 - h + 128"
      using diff_mod_128 [OF r(1,2), of 0] h0 r by (simp add: log_count_def LOG_SIZE_def)
    with True a c r show ?thesis by simp
  next
    case False
    with assms(5) a have ne: "h \<noteq> t + 1" by simp
    have t1: "0 \<le> t + 1" "t + 1 < 128" using False r by simp_all
    have "log_count h (t + 1) = (if h \<le> t + 1 then t + 1 - h else t + 1 - h + 128)"
      using diff_mod_128 [OF r(1,2) t1] by (simp add: log_count_def LOG_SIZE_def)
    with False a c ne show ?thesis by (auto split: if_splits)
  qed
qed

lemma ISR_invariant:
  assumes "our_log_head s = 0" "0 \<le> bytes_unsynched s" "bytes_unsynched s \<le> our_log_tail s"
    "our_log_tail s \<le> LOG_SIZE - 1"
  shows "our_log_head (ISR b s) = 0 \<and> 0 \<le> bytes_unsynched (ISR b s) \<and>
         bytes_unsynched (ISR b s) \<le> our_log_tail (ISR b s) \<and>
         our_log_tail (ISR b s) \<le> LOG_SIZE - 1"
proof (cases "our_log_head s = (our_log_tail s + 1) smod LOG_SIZE")
  case True
  with assms show ?thesis by (simp add: ISR_full)
next
  case False
  have r: "0 \<le> our_log_tail s" "our_log_tail s < 128" using assms by (simp_all add: LOG_SIZE_def)
  then have a: "(our_log_tail s + 1) smod LOG_SIZE = (if our_log_tail s = 127 then 0 else our_log_tail s + 1)"
    by (simp add: smod_LOG_SIZE)
  with False assms(1) have "our_log_tail s \<noteq> 127" by auto
  with a r assms False show ?thesis by (simp add: ISR_room LOG_SIZE_def)
qed

lemma report_frame:
  "our_log_head (report s) = our_log_head s \<and> our_log_tail (report s) = our_log_tail s \<and>
   bytes_unsynched (report s) = bytes_unsynched s"
  by (simp add: report_eq)

lemma loop_invariant:
  assumes "our_log_head s = 0" "0 \<le> bytes_unsynched s" "bytes_unsynched s \<le> our_log_tail s"
    "our_log_tail s \<le> LOG_SIZE - 1"
    and "int (length delivered) = bytes_unsynched s" and "loop delivered s = Some s'"
  shows "our_log_head s' = 0 \<and> 0 \<le> bytes_unsynched s' \<and>
         bytes_unsynched s' \<le> our_log_tail s' \<and> our_log_tail s' \<le> LOG_SIZE - 1"
proof (cases "our_id s")
  case beta
  with assms show ?thesis by (auto simp: loop_beta report_eq)
next
  case alpha
  show ?thesis
  proof (cases "bytes_unsynched s = 0")
    case True
    with alpha assms show ?thesis by (auto simp: loop_alpha_idle report_eq)
  next
    case False
    let ?s0 = "digitalWrite SYNCHRONIZATION_LED HIGH s"
    have "our_id ?s0 = alpha" "bytes_unsynched ?s0 \<noteq> 0"
      "bytes_unsynched ?s0 \<le> int (length delivered)"
      using alpha False assms(5) by (simp_all add: digitalWrite_def)
    from alpha_synchronize_returns [OF this]
    obtain s1 where s1: "alpha_synchronize delivered ?s0 = Some (int (length delivered), s1)"
      and f: "bytes_unsynched s1 = bytes_unsynched ?s0 - int (length delivered)"
        "our_log_head s1 = our_log_head ?s0" "our_log_tail s1 = our_log_tail ?s0"
      by blast
    from alpha s1 assms(6) have "s' = report (digitalWrite SYNCHRONIZATION_LED LOW s1)"
      by (simp add: loop_def)
    with f assms show ?thesis by (simp add: report_eq digitalWrite_def)
  qed
qed

lemma beta_synchronize_tx_frame:
  "our_log_head (beta_synchronize_tx s) = our_log_head s \<and>
   our_log_tail (beta_synchronize_tx s) = our_log_tail s \<and>
   bytes_unsynched (beta_synchronize_tx s) = bytes_unsynched s"
  by (simp add: beta_synchronize_tx_def Let_def send_unsynched_eq)

lemma on_receive_frame:
  "our_log_head (on_receive delivered s) = our_log_head s \<and>
   our_log_tail (on_receive delivered s) = our_log_tail s \<and>
   bytes_unsynched (on_receive delivered s) = bytes_unsynched s - int (length delivered)"
proof -
  let ?t = "s\<lparr>wire_rx := delivered\<rparr>"
  from beta_receive_frame [OF refl, of ?t] have fr: "rx_frame ?t (beta_receive ?t)" by simp
  obtain k where e: "beta_synchronize_rx (int (length delivered)) ?t =
     (beta_receive ?t)\<lparr>bytes_unsynched := bytes_unsynched ?t - int (length delivered),
                       bytes_unreported := bytes_unreported ?t + int (length delivered),
                       pins := pins ?t @ replicate k (SLOWDUMP_LED, HIGH) @
                         (if bytes_unsynched ?t \<noteq> int (length delivered)
                          then [(UNSYNCHRONIZED_LED, HIGH)] else [])\<rparr>"
    using beta_synchronize_rx_eq [of "int (length delivered)" ?t] by blast
  from fr show ?thesis
    unfolding on_receive_def e by (simp add: rx_frame_def)
qed

lemma reachable_invariant:
  "reachable s \<Longrightarrow>
   our_log_head s = 0 \<and> 0 \<le> bytes_unsynched s \<and> bytes_unsynched s \<le> our_log_tail s \<and>
   our_log_tail s \<le> LOG_SIZE - 1"
proof (induction rule: reachable.induct)
  case (booted i)
  then show ?case by (simp add: boot_def LOG_SIZE_def)
next
  case (interrupted s b)
  then show ?case using ISR_invariant [of s b] by blast
next
  case (looped s delivered s')
  then show ?case using loop_invariant [of s delivered s'] by blast
next
  case (requested s)
  then show ?case by (simp add: beta_synchronize_tx_frame)
next
  case (received s delivered)
  then show ?case by (simp add: on_receive_frame)
qed

lemma capture_fill:
  assumes "our_log_head s = 0" "0 \<le> our_log_tail s" "our_log_tail s \<le> 127"
  shows "our_log_tail (capture bs s) = min (our_log_tail s + int (length bs)) 127 \<and>
         bytes_unsynched (capture bs s) =
           bytes_unsynched s + (min (our_log_tail s + int (length bs)) 127 - our_log_tail s) \<and>
         our_log_head (capture bs s) = 0 \<and>
         our_log (capture bs s) 127 = our_log s 127"
  using assms
proof (induction bs arbitrary: s)
  case Nil
  then show ?case by simp
next
  case (Cons b bs)
  have a: "(our_log_tail s + 1) smod LOG_SIZE = (if our_log_tail s = 127 then 0 else our_log_tail s + 1)"
    using Cons.prems by (simp add: smod_LOG_SIZE)
  show ?case
  proof (cases "our_log_tail s = 127")
    case True
    with a Cons.prems have e: "ISR b s = s\<lparr>pins := pins s @ [(SLOWSYNC_LED, HIGH)]\<rparr>"
      by (simp add: ISR_full)
    have "our_log_head (ISR b s) = 0" "0 \<le> our_log_tail (ISR b s)" "our_log_tail (ISR b s) \<le> 127"
      using Cons.prems by (simp_all add: e)
    from Cons.IH [OF this] True show ?thesis by (simp add: e)
  next
    case False
    with a Cons.prems have e: "ISR b s = s\<lparr>our_log := (our_log s)(our_log_tail s := b),
               our_log_tail := our_log_tail s + 1,
               bytes_unsynched := bytes_unsynched s + 1\<rparr>"
      by (simp add: ISR_room)
    have "our_log_head (ISR b s) = 0" "0 \<le> our_log_tail (ISR b s)" "our_log_tail (ISR b s) \<le> 127"
      using Cons.prems False by (simp_all add: e)
    from Cons.IH [OF this] False Cons.prems show ?thesis by (simp add: e)
  qed
qed

lemma capture_boot:
  "our_log_tail (capture bs (boot i)) = min (int (length bs)) (LOG_SIZE - 1) \<and>
   bytes_unsynched (capture bs (boot i)) = min (int (length bs)) (LOG_SIZE - 1) \<and>
   our_log (capture bs (boot i)) (LOG_SIZE - 1) = 0"
  using capture_fill [of "boot i" bs] by (simp add: boot_def LOG_SIZE_def)

lemma buff_write_admits:
  fixes capacity :: "'a::len word"
  assumes "0 \<le> sint capacity" and "unread r < unat capacity"
  shows "fst (buff_write b capacity r) \<and> unread (snd (buff_write b capacity r)) = Suc (unread r)"
proof -
  have le: "unread r \<le> unat capacity" using assms(2) by simp
  have i: "items_in_buffer (reads r) (writes r) = writes r - reads r"
    using assms(1) le by (rule items_in_buffer_unread)
  have ne: "writes r - reads r \<noteq> capacity" using assms(2) by (auto simp: unread_def)
  have "unat (writes r + 1 - reads r) = Suc (unat (writes r - reads r))"
    using assms(2) unfolding unread_def by (rule unat_succ_diff)
  with i ne show ?thesis by (simp add: buff_write_def Let_def unread_def)
qed

lemma writes_fill:
  fixes capacity :: "'a::len word"
  assumes "0 \<le> sint capacity"
  shows "unread r \<le> unat capacity \<Longrightarrow>
         unread (snd (run_ops capacity (map Write bs) (item, r))) =
           min (unread r + length bs) (unat capacity)"
proof (induction bs arbitrary: r)
  case Nil
  then show ?case by simp
next
  case (Cons b bs)
  show ?case
  proof (cases "unread r < unat capacity")
    case True
    from buff_write_admits [OF assms True, of b]
    have s: "unread (snd (buff_write b capacity r)) = Suc (unread r)" by simp
    then have "unread (snd (buff_write b capacity r)) \<le> unat capacity" using True by simp
    from Cons.IH [OF this] s show ?thesis by simp
  next
    case False
    with Cons.prems have full: "unread r = unat capacity" by simp
    then have "\<not> fst (buff_write b capacity r)"
      using buff_write_fails_iff [OF assms Cons.prems, of b] by simp
    then have same: "snd (buff_write b capacity r) = r"
      by (auto simp: buff_write_def Let_def split: if_splits)
    from Cons.IH [of r] Cons.prems full show ?thesis by (simp add: same)
  qed
qed

lemma their_log_receive_refuses_iff:
  "their_log_receive s = digitalWrite SLOWDUMP_LED HIGH (snd (Wire_read s)) \<longleftrightarrow>
     their_log_head s = (their_log_tail s + 1) smod LOG_SIZE"
proof
  assume e: "their_log_receive s = digitalWrite SLOWDUMP_LED HIGH (snd (Wire_read s))"
  show "their_log_head s = (their_log_tail s + 1) smod LOG_SIZE"
  proof (rule ccontr)
    assume "their_log_head s \<noteq> (their_log_tail s + 1) smod LOG_SIZE"
    then have "pins (their_log_receive s) = pins s"
      by (simp add: their_log_receive_def Wire_read_def Let_def split: list.splits)
    moreover have "pins (digitalWrite SLOWDUMP_LED HIGH (snd (Wire_read s))) = pins s @ [(SLOWDUMP_LED, HIGH)]"
      by (simp add: digitalWrite_def Wire_read_def split: list.splits)
    ultimately show False using e by simp
  qed
next
  assume "their_log_head s = (their_log_tail s + 1) smod LOG_SIZE"
  then show "their_log_receive s = digitalWrite SLOWDUMP_LED HIGH (snd (Wire_read s))"
    by (simp add: their_log_receive_def)
qed

lemma writes_fill_empty:
  fixes capacity :: "'a::len word"
  assumes "0 \<le> sint capacity \<and> reads r = writes r"
  shows "unread (snd (run_ops capacity (map Write ws) (item, r))) = min (length ws) (unat capacity)"
proof -
  have "unread r = 0" using assms by (simp add: unread_def)
  then show ?thesis using writes_fill [of capacity r ws item] assms by simp
qed

lemma log_count_facts:
  assumes "0 \<le> h \<and> h < LOG_SIZE \<and> 0 \<le> t \<and> t < LOG_SIZE"
  shows "log_count h t \<le> LOG_SIZE - 1 \<and>
       (h = (t + 1) smod LOG_SIZE \<longleftrightarrow> log_count h t = LOG_SIZE - 1) \<and>
       (h \<noteq> (t + 1) smod LOG_SIZE \<longrightarrow> log_count h ((t + 1) smod LOG_SIZE) = log_count h t + 1)"
  using assms log_count_le [of h t] log_count_full_iff [of h t] log_count_step [of h t]
  by blast

lemma capture_contents:
  assumes "our_log_head s = 0" "0 \<le> our_log_tail s" "our_log_tail s \<le> 127"
  shows "our_log (capture bs s) =
           (\<lambda>k. if our_log_tail s \<le> k \<and> k < min (our_log_tail s + int (length bs)) 127
                then bs ! nat (k - our_log_tail s) else our_log s k)"
  using assms
proof (induction bs arbitrary: s)
  case Nil
  then show ?case by (auto simp: fun_eq_iff)
next
  case (Cons b bs)
  have a: "(our_log_tail s + 1) smod LOG_SIZE = (if our_log_tail s = 127 then 0 else our_log_tail s + 1)"
    using Cons.prems by (simp add: smod_LOG_SIZE)
  show ?case
  proof (cases "our_log_tail s = 127")
    case True
    with a Cons.prems have e: "ISR b s = s\<lparr>pins := pins s @ [(SLOWSYNC_LED, HIGH)]\<rparr>"
      by (simp add: ISR_full)
    have "our_log_head (ISR b s) = 0" "0 \<le> our_log_tail (ISR b s)" "our_log_tail (ISR b s) \<le> 127"
      using Cons.prems by (simp_all add: e)
    from Cons.IH [OF this] True show ?thesis by (auto simp: e fun_eq_iff cong: if_cong)
  next
    case False
    with a Cons.prems have e: "ISR b s = s\<lparr>our_log := (our_log s)(our_log_tail s := b),
               our_log_tail := our_log_tail s + 1,
               bytes_unsynched := bytes_unsynched s + 1\<rparr>"
      by (simp add: ISR_room)
    have "our_log_head (ISR b s) = 0" "0 \<le> our_log_tail (ISR b s)" "our_log_tail (ISR b s) \<le> 127"
      using Cons.prems False by (simp_all add: e)
    from Cons.IH [OF this]
    have ih: "our_log (capture bs (ISR b s)) =
        (\<lambda>k. if our_log_tail s + 1 \<le> k \<and> k < min (our_log_tail s + 1 + int (length bs)) 127
             then bs ! nat (k - (our_log_tail s + 1)) else ((our_log s)(our_log_tail s := b)) k)"
      by (simp add: e cong: if_cong)
    show ?thesis
    proof (rule ext)
      fix k
      consider "k = our_log_tail s" | "our_log_tail s < k" | "k < our_log_tail s" by linarith
      then show "our_log (capture (b # bs) s) k =
          (if our_log_tail s \<le> k \<and> k < min (our_log_tail s + int (length (b # bs))) 127
           then (b # bs) ! nat (k - our_log_tail s) else our_log s k)"
      proof cases
        case 1
        with False Cons.prems show ?thesis by (simp add: ih)
      next
        case 2
        then have "nat (k - our_log_tail s) = Suc (nat (k - (our_log_tail s + 1)))" by simp
        with 2 show ?thesis by (simp add: ih)
      next
        case 3
        then show ?thesis by (simp add: ih)
      qed
    qed
  qed
qed

lemma alpha_receive_snd: "wire_rx s = bs \<Longrightarrow> snd (alpha_receive n s) = beta_receive s"
proof (induction bs arbitrary: n s)
  case Nil
  then show ?case
    by (subst alpha_receive.simps, subst beta_receive.simps) (simp add: Wire_available_def)
next
  case (Cons b bs)
  from their_log_receive_frame [OF Cons.prems]
  have w: "wire_rx (their_log_receive s) = bs" by simp
  have u1: "alpha_receive n s = alpha_receive (n + 1) (their_log_receive s)"
    using Cons.prems by (subst alpha_receive.simps) (simp add: Wire_available_def)
  have u2: "beta_receive s = beta_receive (their_log_receive s)"
    using Cons.prems by (subst beta_receive.simps) (simp add: Wire_available_def)
  from Cons.IH [OF w, of "n + 1"] show ?case unfolding u1 u2 .
qed

lemma beta_receive_fill:
  assumes "their_log_head s = 0" "0 \<le> their_log_tail s" "their_log_tail s \<le> 127"
    and "wire_rx s = bs"
  shows "their_log_tail (beta_receive s) = min (their_log_tail s + int (length bs)) 127 \<and>
         their_log (beta_receive s) =
           (\<lambda>k. if their_log_tail s \<le> k \<and> k < min (their_log_tail s + int (length bs)) 127
                then bs ! nat (k - their_log_tail s) else their_log s k)"
  using assms
proof (induction bs arbitrary: s)
  case Nil
  then show ?case
    by (subst (1 2) beta_receive.simps) (auto simp: Wire_available_def fun_eq_iff)
next
  case (Cons b bs)
  have a: "(their_log_tail s + 1) smod LOG_SIZE =
      (if their_log_tail s = 127 then 0 else their_log_tail s + 1)"
    using Cons.prems by (simp add: smod_LOG_SIZE)
  have u: "beta_receive s = beta_receive (their_log_receive s)"
    using Cons.prems by (subst beta_receive.simps) (simp add: Wire_available_def)
  show ?case
  proof (cases "their_log_tail s = 127")
    case True
    with a Cons.prems have e: "their_log_receive s =
        s\<lparr>pins := pins s @ [(SLOWDUMP_LED, HIGH)], wire_rx := bs\<rparr>"
      by (simp add: their_log_receive_cons)
    have "their_log_head (their_log_receive s) = 0" "0 \<le> their_log_tail (their_log_receive s)"
      "their_log_tail (their_log_receive s) \<le> 127" "wire_rx (their_log_receive s) = bs"
      using Cons.prems by (simp_all add: e)
    from Cons.IH [OF this] True show ?thesis unfolding u by (auto simp: e fun_eq_iff cong: if_cong)
  next
    case False
    with a Cons.prems have e: "their_log_receive s =
        s\<lparr>their_log := (their_log s)(their_log_tail s := b),
          their_log_tail := their_log_tail s + 1, wire_rx := bs\<rparr>"
      by (simp add: their_log_receive_cons)
    have "their_log_head (their_log_receive s) = 0" "0 \<le> their_log_tail (their_log_receive s)"
      "their_log_tail (their_log_receive s) \<le> 127" "wire_rx (their_log_receive s) = bs"
      using Cons.prems False by (simp_all add: e)
    from Cons.IH [OF this]
    have t: "their_log_tail (beta_receive s) = min (their_log_tail s + 1 + int (length bs)) 127"
      and ih: "their_log (beta_receive s) =
        (\<lambda>k. if their_log_tail s + 1 \<le> k \<and> k < min (their_log_tail s + 1 + int (length bs)) 127
             then bs ! nat (k - (their_log_tail s + 1))
             else ((their_log s)(their_log_tail s := b)) k)"
      unfolding u by (simp_all add: e cong: if_cong)
    have "their_log (beta_receive s) =
           (\<lambda>k. if their_log_tail s \<le> k \<and> k < min (their_log_tail s + int (length (b # bs))) 127
                then (b # bs) ! nat (k - their_log_tail s) else their_log s k)"
    proof (rule ext)
      fix k
      consider "k = their_log_tail s" | "their_log_tail s < k" | "k < their_log_tail s" by linarith
      then show "their_log (beta_receive s) k =
          (if their_log_tail s \<le> k \<and> k < min (their_log_tail s + int (length (b # bs))) 127
           then (b # bs) ! nat (k - their_log_tail s) else their_log s k)"
      proof cases
        case 1
        with False Cons.prems show ?thesis by (simp add: ih)
      next
        case 2
        then have "nat (k - their_log_tail s) = Suc (nat (k - (their_log_tail s + 1)))" by simp
        with 2 show ?thesis by (simp add: ih)
      next
        case 3
        then show ?thesis by (simp add: ih)
      qed
    qed
    with t show ?thesis by (simp add: add.assoc)
  qed
qed

lemma capture_boot_contents:
  "our_log (capture bs (boot i)) =
     (\<lambda>k. if 0 \<le> k \<and> k < min (int (length bs)) (LOG_SIZE - 1) then bs ! nat k else 0)"
  using capture_contents [of "boot i" bs] by (simp add: boot_def LOG_SIZE_def cong: if_cong)

lemma receive_boot:
  "their_log_tail (beta_receive ((boot i)\<lparr>wire_rx := bs\<rparr>)) = min (int (length bs)) (LOG_SIZE - 1) \<and>
   their_log (beta_receive ((boot i)\<lparr>wire_rx := bs\<rparr>)) =
     (\<lambda>k. if 0 \<le> k \<and> k < min (int (length bs)) (LOG_SIZE - 1) then bs ! nat k else 0) \<and>
   snd (alpha_receive 0 ((boot i)\<lparr>wire_rx := bs\<rparr>)) = beta_receive ((boot i)\<lparr>wire_rx := bs\<rparr>)"
  using beta_receive_fill [of "(boot i)\<lparr>wire_rx := bs\<rparr>" bs]
    alpha_receive_snd [of "(boot i)\<lparr>wire_rx := bs\<rparr>" bs 0]
  by (simp add: boot_def LOG_SIZE_def cong: if_cong)

text \<open>
  Claim C10. The interrupt handler refuses a byte exactly when
  \<^verbatim>\<open>our_log_head == (our_log_tail + 1) % LOG_SIZE\<close> and otherwise stores it at the tail
  and advances the tail; the receive loops do the same for \<^verbatim>\<open>their_log\<close>, storing the
  next received byte unless \<^verbatim>\<open>their_log_head == (their_log_tail + 1) % LOG_SIZE\<close>, when
  they drop it. A log with head and tail in range therefore holds at most
  \<^verbatim>\<open>LOG_SIZE - 1\<close> bytes, is refused further bytes exactly at that count, and gains one
  byte otherwise. From \<^verbatim>\<open>setup\<close>, a run of the handler over any bytes, and a run of
  either receive loop over any received bytes, stores the first \<^verbatim>\<open>LOG_SIZE - 1\<close> of them
  in order and nothing more, and never writes the last slot. \<^verbatim>\<open>buff_write\<close> on an empty
  ring accepts bytes until all \<open>capacity\<close> slots are taken. In every state reached with
  correct sync accounting, \<^verbatim>\<open>bytes_unsynched\<close> is at most \<^verbatim>\<open>LOG_SIZE - 1\<close>.
\<close>

theorem log_capacity_is_size_minus_one:
  "(ISR b s = digitalWrite SLOWSYNC_LED HIGH s \<longleftrightarrow>
      our_log_head s = (our_log_tail s + 1) smod LOG_SIZE) \<and>
   (our_log_head s \<noteq> (our_log_tail s + 1) smod LOG_SIZE \<longrightarrow>
      ISR b s = s\<lparr>our_log := (our_log s)(our_log_tail s := b),
                  our_log_tail := (our_log_tail s + 1) smod LOG_SIZE,
                  bytes_unsynched := bytes_unsynched s + 1\<rparr>) \<and>
   (their_log_receive s = digitalWrite SLOWDUMP_LED HIGH (snd (Wire_read s)) \<longleftrightarrow>
      their_log_head s = (their_log_tail s + 1) smod LOG_SIZE) \<and>
   (wire_rx s = x # xs \<longrightarrow>
      their_log_receive s =
        (if their_log_head s \<noteq> (their_log_tail s + 1) smod LOG_SIZE
         then s\<lparr>their_log := (their_log s)(their_log_tail s := x),
                their_log_tail := (their_log_tail s + 1) smod LOG_SIZE, wire_rx := xs\<rparr>
         else s\<lparr>pins := pins s @ [(SLOWDUMP_LED, HIGH)], wire_rx := xs\<rparr>)) \<and>
   (0 \<le> h \<and> h < LOG_SIZE \<and> 0 \<le> t \<and> t < LOG_SIZE \<longrightarrow>
      log_count h t \<le> LOG_SIZE - 1 \<and>
      (h = (t + 1) smod LOG_SIZE \<longleftrightarrow> log_count h t = LOG_SIZE - 1) \<and>
      (h \<noteq> (t + 1) smod LOG_SIZE \<longrightarrow>
         log_count h ((t + 1) smod LOG_SIZE) = log_count h t + 1)) \<and>
   (our_log_tail (capture bs (boot i)) = min (int (length bs)) (LOG_SIZE - 1) \<and>
    bytes_unsynched (capture bs (boot i)) = min (int (length bs)) (LOG_SIZE - 1) \<and>
    our_log (capture bs (boot i)) (LOG_SIZE - 1) = 0 \<and>
    our_log (capture bs (boot i)) =
      (\<lambda>k. if 0 \<le> k \<and> k < min (int (length bs)) (LOG_SIZE - 1) then bs ! nat k else 0)) \<and>
   (their_log_tail (beta_receive ((boot i)\<lparr>wire_rx := bs\<rparr>)) =
      min (int (length bs)) (LOG_SIZE - 1) \<and>
    their_log (beta_receive ((boot i)\<lparr>wire_rx := bs\<rparr>)) =
      (\<lambda>k. if 0 \<le> k \<and> k < min (int (length bs)) (LOG_SIZE - 1) then bs ! nat k else 0) \<and>
    snd (alpha_receive 0 ((boot i)\<lparr>wire_rx := bs\<rparr>)) =
      beta_receive ((boot i)\<lparr>wire_rx := bs\<rparr>)) \<and>
   (0 \<le> sint capacity \<and> reads r = writes r \<longrightarrow>
      unread (snd (run_ops capacity (map Write ws) (item, r))) = min (length ws) (unat capacity)) \<and>
   (reachable s' \<longrightarrow> bytes_unsynched s' \<le> LOG_SIZE - 1)"
proof (intro conjI)
  show "ISR b s = digitalWrite SLOWSYNC_LED HIGH s \<longleftrightarrow>
      our_log_head s = (our_log_tail s + 1) smod LOG_SIZE"
    by (rule ISR_refuses_iff)
  show "our_log_head s \<noteq> (our_log_tail s + 1) smod LOG_SIZE \<longrightarrow>
      ISR b s = s\<lparr>our_log := (our_log s)(our_log_tail s := b),
                  our_log_tail := (our_log_tail s + 1) smod LOG_SIZE,
                  bytes_unsynched := bytes_unsynched s + 1\<rparr>"
    by (rule impI) (rule ISR_room)
  show "their_log_receive s = digitalWrite SLOWDUMP_LED HIGH (snd (Wire_read s)) \<longleftrightarrow>
      their_log_head s = (their_log_tail s + 1) smod LOG_SIZE"
    by (rule their_log_receive_refuses_iff)
  show "wire_rx s = x # xs \<longrightarrow>
      their_log_receive s =
        (if their_log_head s \<noteq> (their_log_tail s + 1) smod LOG_SIZE
         then s\<lparr>their_log := (their_log s)(their_log_tail s := x),
                their_log_tail := (their_log_tail s + 1) smod LOG_SIZE, wire_rx := xs\<rparr>
         else s\<lparr>pins := pins s @ [(SLOWDUMP_LED, HIGH)], wire_rx := xs\<rparr>)"
    by (rule impI) (rule their_log_receive_cons)
  show "0 \<le> h \<and> h < LOG_SIZE \<and> 0 \<le> t \<and> t < LOG_SIZE \<longrightarrow>
      log_count h t \<le> LOG_SIZE - 1 \<and>
      (h = (t + 1) smod LOG_SIZE \<longleftrightarrow> log_count h t = LOG_SIZE - 1) \<and>
      (h \<noteq> (t + 1) smod LOG_SIZE \<longrightarrow>
         log_count h ((t + 1) smod LOG_SIZE) = log_count h t + 1)"
    by (rule impI) (rule log_count_facts)
  show "our_log_tail (capture bs (boot i)) = min (int (length bs)) (LOG_SIZE - 1)"
    "bytes_unsynched (capture bs (boot i)) = min (int (length bs)) (LOG_SIZE - 1)"
    "our_log (capture bs (boot i)) (LOG_SIZE - 1) = 0"
    using capture_boot [of bs i] by simp_all
  show "our_log (capture bs (boot i)) =
      (\<lambda>k. if 0 \<le> k \<and> k < min (int (length bs)) (LOG_SIZE - 1) then bs ! nat k else 0)"
    by (rule capture_boot_contents)
  show "their_log_tail (beta_receive ((boot i)\<lparr>wire_rx := bs\<rparr>)) =
      min (int (length bs)) (LOG_SIZE - 1)"
    "their_log (beta_receive ((boot i)\<lparr>wire_rx := bs\<rparr>)) =
      (\<lambda>k. if 0 \<le> k \<and> k < min (int (length bs)) (LOG_SIZE - 1) then bs ! nat k else 0)"
    "snd (alpha_receive 0 ((boot i)\<lparr>wire_rx := bs\<rparr>)) =
      beta_receive ((boot i)\<lparr>wire_rx := bs\<rparr>)"
    using receive_boot [where i = i and bs = bs] by blast+
  show "0 \<le> sint capacity \<and> reads r = writes r \<longrightarrow>
      unread (snd (run_ops capacity (map Write ws) (item, r))) = min (length ws) (unat capacity)"
    by (rule impI) (rule writes_fill_empty)
  show "reachable s' \<longrightarrow> bytes_unsynched s' \<le> LOG_SIZE - 1"
    using reachable_invariant [of s'] by auto
qed

theorem log_capacity_is_size_minus_one_witness:
  "ISR 0x99 ((boot alpha)\<lparr>our_log_tail := 127\<rparr>) =
     digitalWrite SLOWSYNC_LED HIGH ((boot alpha)\<lparr>our_log_tail := 127\<rparr>) \<and>
   our_log (ISR 0x99 (boot alpha)) 0 = 0x99 \<and> our_log_tail (ISR 0x99 (boot alpha)) = 1 \<and>
   their_log (their_log_receive ((boot alpha)\<lparr>wire_rx := [0xAA, 0xBB]\<rparr>)) 0 = 0xAA \<and>
   their_log_tail (their_log_receive ((boot alpha)\<lparr>wire_rx := [0xAA, 0xBB]\<rparr>)) = 1 \<and>
   their_log_receive ((boot alpha)\<lparr>their_log_tail := 127, wire_rx := [0xAA, 0xBB]\<rparr>) =
     (boot alpha)\<lparr>their_log_tail := 127, wire_rx := [0xBB],
                   pins := [(ALPHA_LED, HIGH), (SLOWDUMP_LED, HIGH)]\<rparr> \<and>
   log_count 0 127 = LOG_SIZE - 1 \<and> log_count 0 6 = log_count 0 5 + 1 \<and>
   their_log (beta_receive ((boot alpha)\<lparr>wire_rx := [0xAA, 0xBB]\<rparr>)) 1 = 0xBB \<and>
   unread (snd (run_ops (2 :: 16 word) (map Write [1, 2, 3])
                 (0, \<lparr>buff = \<lambda>_. 0, reads = 0, writes = 0\<rparr>))) = 2 \<and>
   reachable (ISR 0x11 (boot alpha)) \<and> bytes_unsynched (ISR 0x11 (boot alpha)) \<le> LOG_SIZE - 1"
proof -
  let ?full = "(boot alpha)\<lparr>our_log_tail := 127\<rparr>"
  let ?rx = "(boot alpha)\<lparr>wire_rx := [0xAA, 0xBB]\<rparr>"
  let ?rxfull = "(boot alpha)\<lparr>their_log_tail := 127, wire_rx := [0xAA, 0xBB]\<rparr>"
  let ?ring = "\<lparr>buff = \<lambda>_. 0, reads = 0, writes = 0 :: 16 word\<rparr>"
  note a = log_capacity_is_size_minus_one
      [where b = "0x99" and s = ?full and h = 0 and t = 127 and bs = "[0xAA, 0xBB]" and i = alpha
         and capacity = "2 :: 16 word" and r = ?ring and ws = "[1, 2, 3]" and item = 0
         and s' = "ISR 0x11 (boot alpha)" and x = 0 and xs = "[]"]
  note b = log_capacity_is_size_minus_one
      [where b = "0x99" and s = "boot alpha" and h = 0 and t = 5 and bs = "[]" and i = alpha
         and capacity = "2 :: 16 word" and r = ?ring and ws = "[]" and item = 0
         and s' = "boot alpha" and x = 0 and xs = "[]"]
  note c = log_capacity_is_size_minus_one
      [where b = "0x99" and s = ?rx and h = 0 and t = 5 and bs = "[]" and i = alpha
         and capacity = "2 :: 16 word" and r = ?ring and ws = "[]" and item = 0
         and s' = "boot alpha" and x = "0xAA" and xs = "[0xBB]"]
  note d = log_capacity_is_size_minus_one
      [where b = "0x99" and s = ?rxfull and h = 0 and t = 5 and bs = "[]" and i = alpha
         and capacity = "2 :: 16 word" and r = ?ring and ws = "[]" and item = 0
         and s' = "boot alpha" and x = "0xAA" and xs = "[0xBB]"]
  have full: "our_log_head ?full = (our_log_tail ?full + 1) smod LOG_SIZE"
    by (simp add: boot_def LOG_SIZE_def signed_modulo_int_def)
  have w1: "ISR 0x99 ?full = digitalWrite SLOWSYNC_LED HIGH ?full"
    using a [THEN conjunct1] full by simp
  have room: "our_log_head (boot alpha) \<noteq> (our_log_tail (boot alpha) + 1) smod LOG_SIZE"
    by (simp add: boot_def LOG_SIZE_def signed_modulo_int_def)
  have w2: "our_log (ISR 0x99 (boot alpha)) 0 = 0x99 \<and> our_log_tail (ISR 0x99 (boot alpha)) = 1"
    using b [THEN conjunct2, THEN conjunct1] room
    by (simp add: boot_def LOG_SIZE_def signed_modulo_int_def)
  note c4 = c [THEN conjunct2, THEN conjunct2, THEN conjunct2, THEN conjunct1]
  have w3: "their_log (their_log_receive ?rx) 0 = 0xAA \<and> their_log_tail (their_log_receive ?rx) = 1"
    using c4 by (simp add: boot_def LOG_SIZE_def signed_modulo_int_def)
  note d4 = d [THEN conjunct2, THEN conjunct2, THEN conjunct2, THEN conjunct1]
  have w4: "their_log_receive ?rxfull =
     (boot alpha)\<lparr>their_log_tail := 127, wire_rx := [0xBB],
                   pins := [(ALPHA_LED, HIGH), (SLOWDUMP_LED, HIGH)]\<rparr>"
    using d4 by (simp add: boot_def LOG_SIZE_def signed_modulo_int_def)
  note a5 = a [THEN conjunct2, THEN conjunct2, THEN conjunct2, THEN conjunct2, THEN conjunct1]
  have w5: "log_count 0 127 = LOG_SIZE - 1"
    using a5 by (simp add: LOG_SIZE_def signed_modulo_int_def)
  note b5 = b [THEN conjunct2, THEN conjunct2, THEN conjunct2, THEN conjunct2, THEN conjunct1]
  have w6: "log_count 0 6 = log_count 0 5 + 1"
    using b5 by (simp add: LOG_SIZE_def signed_modulo_int_def)
  note a7 = a [THEN conjunct2, THEN conjunct2, THEN conjunct2, THEN conjunct2, THEN conjunct2,
      THEN conjunct2, THEN conjunct1]
  have w7: "their_log (beta_receive ?rx) 1 = 0xBB"
    using a7 by (simp add: LOG_SIZE_def)
  note a8 = a [THEN conjunct2, THEN conjunct2, THEN conjunct2, THEN conjunct2, THEN conjunct2,
      THEN conjunct2, THEN conjunct2]
  have w8: "unread (snd (run_ops (2 :: 16 word) (map Write [1, 2, 3]) (0, ?ring))) = 2"
    using a8 [THEN conjunct1] by simp
  have r: "reachable (ISR 0x11 (boot alpha))"
    by (rule reachable.interrupted [OF reachable.booted])
  have w9: "bytes_unsynched (ISR 0x11 (boot alpha)) \<le> LOG_SIZE - 1"
    using a8 [THEN conjunct2] r by simp
  from w1 w2 w3 w4 w5 w6 w7 w8 r w9 show ?thesis by blast
qed

end
